theory Spec2Isabelle
  imports Main "HOL-Library.Sublist"
begin

section \<open>Strings\<close>

text \<open>
  A JavaScript string is modelled as a \<open>string\<close>; a \<open>char\<close> stands for a UTF-16 code
  unit below 256. \<open>startsWith\<close> and \<open>includesStr\<close> are \<open>String.prototype.startsWith\<close>
  and \<open>String.prototype.includes\<close>, receiver first.
\<close>

fun startsWith :: "string \<Rightarrow> string \<Rightarrow> bool" where
  "startsWith s [] = True"
| "startsWith [] (p # ps) = False"
| "startsWith (c # cs) (p # ps) = (c = p \<and> startsWith cs ps)"

fun includesStr :: "string \<Rightarrow> string \<Rightarrow> bool" where
  "includesStr [] t = (t = [])"
| "includesStr (c # cs) t = (startsWith (c # cs) t \<or> includesStr cs t)"

section \<open>Change severity and the commit classifier\<close>

text \<open>
  \<open>changeType\<close> holds one of the four literals \<open>'none'\<close>, \<open>'patch'\<close>, \<open>'minor'\<close>,
  \<open>'major'\<close>; no other value is ever assigned to it.
\<close>

datatype changeType = NONE | PATCH | MINOR | MAJOR

text \<open>The test of the first branch of the loop in \<open>determineChangeType\<close>.\<close>

definition breaking :: "string \<Rightarrow> bool" where
  "breaking commit = (startsWith commit ''feat!:'' \<or> includesStr commit ''BREAKING CHANGE'')"

text \<open>
  The loop of \<open>determineChangeType\<close>, from the running value of the local variable
  \<open>changeType\<close>: a breaking commit returns \<open>'major'\<close> at once.
\<close>

fun classifyFrom :: "changeType \<Rightarrow> string list \<Rightarrow> changeType" where
  "classifyFrom ct [] = ct"
| "classifyFrom ct (commit # commits) =
     (if breaking commit then MAJOR
      else if startsWith commit ''feat:'' \<and> ct \<noteq> MAJOR then classifyFrom MINOR commits
      else if startsWith commit ''fix:'' \<and> ct = NONE then classifyFrom PATCH commits
      else classifyFrom ct commits)"

definition determineChangeType :: "string list \<Rightarrow> changeType" where
  "determineChangeType commits = classifyFrom NONE commits"

section \<open>Numbers and version strings\<close>

text \<open>
  \<open>incrementVersion\<close> converts each dot-separated part of the version with \<open>Number\<close>,
  adds one, and prints numbers inside a template literal. JavaScript numbers are
  IEEE doubles; the model keeps exactly the values it can print character by character:
  \<open>NaN\<close> and the integers of magnitude at most \<open>2^53\<close> (\<open>Integer\<close>, each of them a double).
  \<open>Other t k\<close> is the number denoted by a numeric text \<open>t\<close> outside this range (a fraction,
  an exponent, a hexadecimal literal, \<open>Infinity\<close>, an integer beyond \<open>2^53\<close>) after
  \<open>k\<close> increments: it is a number, but its value and its decimal text are not modelled.
\<close>

datatype jsnum = NaN | Integer int | Other string nat

datatype error =
    CyclicDependency "string list"
  | UnknownIncrementType string

definition isSpace :: "char \<Rightarrow> bool" where
  \<comment> \<open>white space and line terminators below 256: TAB, LF, VT, FF, CR, SP, NBSP\<close>
  "isSpace c = (of_char c \<in> {9, 10, 11, 12, 13, 32, 160 :: nat})"

definition isDigit :: "char \<Rightarrow> bool" where
  "isDigit c = (c \<in> set ''0123456789'')"

definition digitVal :: "char \<Rightarrow> nat" where
  "digitVal c = of_char c - 48"

definition digitChar :: "nat \<Rightarrow> char" where
  "digitChar d = ''0123456789'' ! d"

definition digitsVal :: "string \<Rightarrow> nat" where
  "digitsVal s = foldl (\<lambda>n c. 10 * n + digitVal c) 0 s"

fun showNat :: "nat \<Rightarrow> string" where
  "showNat n = (if n < 10 then [digitChar n] else showNat (n div 10) @ [digitChar (n mod 10)])"

declare showNat.simps [simp del]

definition showInt :: "int \<Rightarrow> string" where
  "showInt i = (if i < 0 then CHR ''-'' # showNat (nat (- i)) else showNat (nat i))"

definition trim :: "string \<Rightarrow> string" where
  "trim s = rev (dropWhile isSpace (rev (dropWhile isSpace s)))"

definition maxExact :: int where
  \<comment> \<open>\<open>2^53\<close>: every integer up to it is a double, \<open>2^53 + 1\<close> is not\<close>
  "maxExact = 9007199254740992"

text \<open>
  The texts \<open>Number\<close> reads, after trimming: the \<open>StrNumericLiteral\<close> of the language
  definition. It is an optional sign before \<open>Infinity\<close>, before digits with an optional
  fraction and an optional exponent, or before a dot, digits and an optional exponent; or,
  with no sign, \<open>0x\<close>, \<open>0o\<close> or \<open>0b\<close> before at least one digit of that base. Separators
  and suffixes are not part of it.
\<close>

definition isHexDigit :: "char \<Rightarrow> bool" where
  "isHexDigit c = (c \<in> set ''0123456789abcdefABCDEF'')"

definition isOctalDigit :: "char \<Rightarrow> bool" where
  "isOctalDigit c = (c \<in> set ''01234567'')"

definition isBinaryDigit :: "char \<Rightarrow> bool" where
  "isBinaryDigit c = (c \<in> set ''01'')"

definition isExponentPart :: "string \<Rightarrow> bool" where
  \<comment> \<open>\<open>e\<close> or \<open>E\<close>, an optional sign, at least one digit\<close>
  "isExponentPart e =
     (case e of
        [] \<Rightarrow> False
      | c # r \<Rightarrow>
          (c = CHR ''e'' \<or> c = CHR ''E'')
          \<and> (let d = (if r \<noteq> [] \<and> (hd r = CHR ''+'' \<or> hd r = CHR ''-'') then tl r else r)
             in d \<noteq> [] \<and> list_all isDigit d))"

definition isUnsignedDecimal :: "string \<Rightarrow> bool" where
  "isUnsignedDecimal u =
     (u = ''Infinity''
      \<or> (let ds = takeWhile isDigit u; r = dropWhile isDigit u
         in if r = [] then ds \<noteq> []
            else if hd r = CHR ''.'' then
              (let fs = takeWhile isDigit (tl r); e = dropWhile isDigit (tl r)
               in (ds \<noteq> [] \<or> fs \<noteq> []) \<and> (e = [] \<or> isExponentPart e))
            else ds \<noteq> [] \<and> isExponentPart r))"

definition isNonDecimal :: "string \<Rightarrow> bool" where
  "isNonDecimal t =
     (case t of
        c0 # c1 # r \<Rightarrow>
          c0 = CHR ''0'' \<and> r \<noteq> []
          \<and> ((c1 = CHR ''x'' \<or> c1 = CHR ''X'') \<and> list_all isHexDigit r
             \<or> (c1 = CHR ''o'' \<or> c1 = CHR ''O'') \<and> list_all isOctalDigit r
             \<or> (c1 = CHR ''b'' \<or> c1 = CHR ''B'') \<and> list_all isBinaryDigit r)
      | _ \<Rightarrow> False)"

definition unsigned :: "string \<Rightarrow> string" where
  "unsigned t = (if t \<noteq> [] \<and> (hd t = CHR ''-'' \<or> hd t = CHR ''+'') then tl t else t)"

definition isStrNumericLiteral :: "string \<Rightarrow> bool" where
  "isStrNumericLiteral t = (isUnsignedDecimal (unsigned t) \<or> isNonDecimal t)"

text \<open>
  \<open>Number(s)\<close> for a string: white space is trimmed; the empty text is \<open>0\<close>; a text that is
  no numeric literal is \<open>NaN\<close>; an optional sign followed by decimal digits only is that
  integer. Every other numeric literal is left as \<open>Other\<close>.
\<close>

definition Number :: "string \<Rightarrow> jsnum" where
  "Number s =
     (let t = trim s in
      if t = [] then Integer 0
      else if \<not> isStrNumericLiteral t then NaN
      else
        let neg = (hd t = CHR ''-'');
            u = unsigned t
        in if list_all isDigit u \<and> int (digitsVal u) \<le> maxExact
           then Integer (if neg then - int (digitsVal u) else int (digitsVal u))
           else Other s 0)"

text \<open>
  \<open>x + 1\<close> for a destructured component \<open>x\<close>: \<open>None\<close> is \<open>undefined\<close> (the array was too
  short), and \<open>undefined + 1\<close> is \<open>NaN\<close>. \<open>2^53 + 1\<close> is not a double and rounds (ties to
  even) back to \<open>2^53\<close>.
\<close>

fun plus1 :: "jsnum option \<Rightarrow> jsnum" where
  "plus1 None = NaN"
| "plus1 (Some NaN) = NaN"
| "plus1 (Some (Integer n)) = Integer (if n = maxExact then n else n + 1)"
| "plus1 (Some (Other t k)) = Other t (Suc k)"

definition otherText :: "string \<Rightarrow> nat \<Rightarrow> string" where
  \<comment> \<open>the decimal text of a number outside the modelled range: some string, left unspecified\<close>
  "otherText = undefined"

text \<open>The text a template literal substitutes for \<open>${x}\<close>.\<close>

fun toStr :: "jsnum option \<Rightarrow> string" where
  "toStr None = ''undefined''"
| "toStr (Some NaN) = ''NaN''"
| "toStr (Some (Integer n)) = showInt n"
| "toStr (Some (Other t k)) = otherText t k"

text \<open>\<open>s.split('.')\<close>: never empty; the empty string gives one empty part.\<close>

fun splitDot :: "string \<Rightarrow> string list" where
  "splitDot [] = [[]]"
| "splitDot (c # cs) =
     (if c = CHR ''.'' then [] # splitDot cs
      else (c # hd (splitDot cs)) # tl (splitDot cs))"

text \<open>Array destructuring: a position past the end of the array is \<open>undefined\<close>.\<close>

definition component :: "jsnum list \<Rightarrow> nat \<Rightarrow> jsnum option" where
  "component parts i = (if i < length parts then Some (parts ! i) else None)"

definition incrementVersion :: "string \<Rightarrow> string \<Rightarrow> error + string" where
  "incrementVersion currentVersion type =
     (let parts = map Number (splitDot currentVersion);
          major = component parts 0;
          minor = component parts 1;
          patch = component parts 2
      in if type = ''major'' then Inr (toStr (Some (plus1 major)) @ ''.0.0'')
         else if type = ''minor'' then
           Inr (toStr major @ ''.'' @ toStr (Some (plus1 minor)) @ ''.0'')
         else if type = ''patch'' then
           Inr (toStr major @ ''.'' @ toStr minor @ ''.'' @ toStr (Some (plus1 patch)))
         else Inl (UnknownIncrementType type))"

text \<open>The version string of a triple of naturals, in decimal.\<close>

definition versionOf :: "nat \<Rightarrow> nat \<Rightarrow> nat \<Rightarrow> string" where
  "versionOf M N P = showNat M @ ''.'' @ showNat N @ ''.'' @ showNat P"

section \<open>Reading a build file\<close>

text \<open>
  The two regular expressions of \<open>extractVersion\<close> and \<open>extractDependencies\<close>, written
  as matchers. Each piece of either expression can match in one way only (\<open>\s*\<close> is
  followed by a character that is not white space, \<open>[^'"]+\<close> by a quote), so the
  backtracking search of the regular expression engine finds a match at a position
  exactly when the greedy matcher does.
\<close>

definition isQuote :: "char \<Rightarrow> bool" where
  "isQuote c = (c = CHR 0x27 \<or> c = CHR 0x22)"

text \<open>A literal at the start of the text: what follows it.\<close>

fun dropPrefix :: "string \<Rightarrow> string \<Rightarrow> string option" where
  "dropPrefix [] s = Some s"
| "dropPrefix (p # ps) [] = None"
| "dropPrefix (p # ps) (c # cs) = (if p = c then dropPrefix ps cs else None)"

definition skipSpaces :: "string \<Rightarrow> string" where
  \<comment> \<open>\<open>\s*\<close>\<close>
  "skipSpaces s = dropWhile isSpace s"

fun dropQuote :: "string \<Rightarrow> string option" where
  \<comment> \<open>\<open>['"]\<close>\<close>
  "dropQuote [] = None"
| "dropQuote (q # r) = (if isQuote q then Some r else None)"

definition takeName :: "string \<Rightarrow> (string \<times> string) option" where
  \<comment> \<open>\<open>([^'"]+)\<close>: the captured text and what follows it\<close>
  "takeName s =
     (if takeWhile (\<lambda>c. \<not> isQuote c) s = [] then None
      else Some (takeWhile (\<lambda>c. \<not> isQuote c) s, dropWhile (\<lambda>c. \<not> isQuote c) s))"

definition versionAt :: "string \<Rightarrow> string option" where
  \<comment> \<open>\<open>version\s*=\s*['"]([^'"]+)['"]\<close> at the start of the text: the captured group\<close>
  "versionAt s =
     Option.bind (dropPrefix ''version'' s) (\<lambda>r1.
     Option.bind (dropPrefix ''='' (skipSpaces r1)) (\<lambda>r2.
     Option.bind (dropQuote (skipSpaces r2)) (\<lambda>r3.
     Option.bind (takeName r3) (\<lambda>(v, r4).
     Option.bind (dropQuote r4) (\<lambda>r5. Some v)))))"

text \<open>\<open>buildContent.match(...)\<close> without the \<open>g\<close> flag: the leftmost match.\<close>

fun versionMatch :: "string \<Rightarrow> string option" where
  "versionMatch [] = versionAt []"
| "versionMatch (c # cs) =
     (case versionAt (c # cs) of Some v \<Rightarrow> Some v | None \<Rightarrow> versionMatch cs)"

definition extractVersion :: "string \<Rightarrow> string" where
  "extractVersion buildContent =
     (case versionMatch buildContent of Some v \<Rightarrow> v | None \<Rightarrow> ''0.1.0'')"

definition dependencyAt :: "string \<Rightarrow> (string \<times> string) option" where
  \<comment> \<open>\<open>implementation\(\s*project\(['"]:([^'"]+)['"]\)\s*\)\<close> at the start of the text:
      the captured group and the text after the match\<close>
  "dependencyAt s =
     Option.bind (dropPrefix ''implementation('' s) (\<lambda>r1.
     Option.bind (dropPrefix ''project('' (skipSpaces r1)) (\<lambda>r2.
     Option.bind (dropQuote r2) (\<lambda>r3.
     Option.bind (dropPrefix '':'' r3) (\<lambda>r4.
     Option.bind (takeName r4) (\<lambda>(d, r5).
     Option.bind (dropQuote r5) (\<lambda>r6.
     Option.bind (dropPrefix '')'' r6) (\<lambda>r7.
     Option.bind (dropPrefix '')'' (skipSpaces r7)) (\<lambda>r8. Some (d, r8)))))))))"

lemma dropPrefix_length: "dropPrefix p s = Some r \<Longrightarrow> length r + length p = length s"
  by (induction p s rule: dropPrefix.induct) (auto split: if_splits)

lemma skipSpaces_length: "length (skipSpaces s) \<le> length s"
  by (simp add: skipSpaces_def length_dropWhile_le)

lemma dropQuote_length: "dropQuote s = Some r \<Longrightarrow> length r < length s"
  by (cases s) (auto split: if_splits)

lemma takeName_length: "takeName s = Some (d, r) \<Longrightarrow> length r \<le> length s"
  by (auto simp: takeName_def length_dropWhile_le split: if_splits)

lemma dependencyAt_shorter:
  assumes "dependencyAt s = Some (d, r)"
  shows "length r < length s"
proof -
  from assms obtain r1 where 1: "dropPrefix ''implementation('' s = Some r1"
    and "dependencyAt s = Option.bind (dropPrefix ''project('' (skipSpaces r1)) (\<lambda>r2.
     Option.bind (dropQuote r2) (\<lambda>r3.
     Option.bind (dropPrefix '':'' r3) (\<lambda>r4.
     Option.bind (takeName r4) (\<lambda>(d, r5).
     Option.bind (dropQuote r5) (\<lambda>r6.
     Option.bind (dropPrefix '')'' r6) (\<lambda>r7.
     Option.bind (dropPrefix '')'' (skipSpaces r7)) (\<lambda>r8. Some (d, r8))))))))"
    by (auto simp: dependencyAt_def split: Option.bind_splits)
  with assms obtain r2 r3 r4 d' r5 r6 r7 where
        2: "dropPrefix ''project('' (skipSpaces r1) = Some r2"
    and 3: "dropQuote r2 = Some r3"
    and 4: "dropPrefix '':'' r3 = Some r4"
    and 5: "takeName r4 = Some (d', r5)"
    and 6: "dropQuote r5 = Some r6"
    and 7: "dropPrefix '')'' r6 = Some r7"
    and 8: "dropPrefix '')'' (skipSpaces r7) = Some r"
    by (auto split: Option.bind_splits)
  have "length r \<le> length (skipSpaces r7)"
    using dropPrefix_length [OF 8] by simp
  also have "\<dots> \<le> length r7"
    by (rule skipSpaces_length)
  also have "\<dots> \<le> length r6"
    using dropPrefix_length [OF 7] by simp
  also have "\<dots> < length r5"
    by (rule dropQuote_length [OF 6])
  also have "\<dots> \<le> length r4"
    by (rule takeName_length [OF 5])
  also have "\<dots> \<le> length r3"
    using dropPrefix_length [OF 4] by simp
  also have "\<dots> \<le> length r2"
    using dropQuote_length [OF 3] by simp
  also have "\<dots> \<le> length (skipSpaces r1)"
    using dropPrefix_length [OF 2] by simp
  also have "\<dots> \<le> length r1"
    by (rule skipSpaces_length)
  also have "\<dots> \<le> length s"
    using dropPrefix_length [OF 1] by simp
  finally show ?thesis .
qed

text \<open>\<open>buildContent.matchAll(...)\<close>: the matches from left to right, each search starting
  where the match before it ended.\<close>

function dependencyMatches :: "string \<Rightarrow> string list" where
  "dependencyMatches s =
     (case dependencyAt s of
        Some (d, r) \<Rightarrow> d # dependencyMatches r
      | None \<Rightarrow> (case s of [] \<Rightarrow> [] | c # cs \<Rightarrow> dependencyMatches cs))"
  by pat_completeness auto
termination
  by (relation "measure length") (auto dest: dependencyAt_shorter)

declare dependencyMatches.simps [simp del]

text \<open>\<open>Set.prototype.add\<close> on a set kept in insertion order.\<close>

definition setAdd :: "'a list \<Rightarrow> 'a \<Rightarrow> 'a list" where
  "setAdd xs x = (if x \<in> set xs then xs else xs @ [x])"

definition extractDependencies :: "string \<Rightarrow> string list" where
  "extractDependencies buildContent = foldl setAdd [] (dependencyMatches buildContent)"

section \<open>The module graph\<close>

text \<open>
  A \<open>ModuleNode\<close> object lives in the heap, a list of objects indexed by address; the
  \<open>dependencies\<close> and \<open>dependents\<close> sets hold addresses, in insertion order. The \<open>path\<close>
  field is left out: only the collaborators outside the program (the file system and
  git) read it, and they are parameters keyed by the module's name here.
\<close>

record ModuleNode =
  name :: string
  currentVersion :: string
  newVersion :: "string option"
  changeType :: changeType
  dependencies :: "nat list"
  dependents :: "nat list"

text \<open>
  The manager: \<open>moduleGraph\<close> is the \<open>Map\<close> from names to nodes, in insertion order of
  its keys; \<open>rootDir\<close> is left out with the file system.
\<close>

record manager =
  dryRun :: bool
  heap :: "ModuleNode list"
  moduleGraph :: "(string \<times> nat) list"
  visitedModules :: "string list"
  moduleOrder :: "nat list"

definition newManager :: "bool \<Rightarrow> manager" where
  "newManager dry =
     \<lparr>dryRun = dry, heap = [], moduleGraph = [], visitedModules = [], moduleOrder = []\<rparr>"

text \<open>\<open>Map.prototype.set\<close>: a key that is present keeps its position and gets the new
  value.\<close>

fun mapSet :: "('k \<times> 'v) list \<Rightarrow> 'k \<Rightarrow> 'v \<Rightarrow> ('k \<times> 'v) list" where
  "mapSet [] k v = [(k, v)]"
| "mapSet ((k', v') # m) k v = (if k' = k then (k, v) # m else (k', v') # mapSet m k v)"

definition graphValues :: "manager \<Rightarrow> nat list" where
  \<comment> \<open>\<open>this.moduleGraph.values()\<close>\<close>
  "graphValues m = map snd (moduleGraph m)"

text \<open>
  The body of the inner loop of \<open>buildDependencyGraph\<close>, for the node at address \<open>a\<close> and
  one declared dependency.
\<close>

definition addDependency :: "nat \<Rightarrow> manager \<Rightarrow> string \<Rightarrow> manager" where
  "addDependency a m dep =
     (case map_of (moduleGraph m) dep of
        None \<Rightarrow> m
      | Some d \<Rightarrow>
          let h1 = (heap m)[a := (heap m ! a)\<lparr>dependencies := setAdd (dependencies (heap m ! a)) d\<rparr>];
              h2 = h1[d := (h1 ! d)\<lparr>dependents := setAdd (dependents (h1 ! d)) a\<rparr>]
          in m\<lparr>heap := h2\<rparr>)"

text \<open>
  The body of the outer loop, for one module name of \<open>settings.gradle.kts\<close>. \<open>files\<close> is
  the file system: the content of the module's \<open>build.gradle.kts\<close>, or \<open>None\<close> when the
  file does not exist.
\<close>

definition addModule :: "(string \<Rightarrow> string option) \<Rightarrow> manager \<Rightarrow> string \<Rightarrow> manager" where
  "addModule files m moduleName =
     (case files moduleName of
        None \<Rightarrow> m
      | Some buildContent \<Rightarrow>
          let version = extractVersion buildContent;
              a = length (heap m);
              moduleNode = \<lparr>name = moduleName, currentVersion = version, newVersion = None,
                            changeType = NONE, dependencies = [], dependents = []\<rparr>;
              m1 = m\<lparr>heap := heap m @ [moduleNode],
                      moduleGraph := mapSet (moduleGraph m) moduleName a\<rparr>
          in foldl (addDependency a) m1 (extractDependencies buildContent))"

definition buildDependencyGraph ::
  "(string \<Rightarrow> string option) \<Rightarrow> string list \<Rightarrow> manager \<Rightarrow> manager" where
  \<comment> \<open>\<open>moduleMatches\<close>: the module names of the settings file, in order\<close>
  "buildDependencyGraph files moduleMatches m = foldl (addModule files) m moduleMatches"

section \<open>Cycle detection\<close>

definition heapNames :: "ModuleNode list \<Rightarrow> string set" where
  "heapNames h = name ` set h"

text \<open>
  \<open>detectCycle(node, path)\<close>: \<open>path\<close> is a set of names in insertion order, copied for
  each recursive call, so the \<open>path.delete\<close> before \<open>return false\<close> is seen by nobody. The
  error carries the names of the cycle, which the source joins with \<open>' -> '\<close> into the
  message. The test \<open>n < length h\<close> is always true of an address taken from the heap; it
  only makes the function total.
\<close>

function detectCycle :: "ModuleNode list \<Rightarrow> nat \<Rightarrow> string list \<Rightarrow> error + bool"
  and detectCycleDeps :: "ModuleNode list \<Rightarrow> nat list \<Rightarrow> string list \<Rightarrow> error + bool" where
  "detectCycle h n path =
     (if \<not> n < length h then Inr False
      else if name (h ! n) \<in> set path then
        Inl (CyclicDependency (dropWhile (\<lambda>x. x \<noteq> name (h ! n)) (path @ [name (h ! n)])))
      else detectCycleDeps h (dependencies (h ! n)) (path @ [name (h ! n)]))"
| "detectCycleDeps h [] path = Inr False"
| "detectCycleDeps h (d # ds) path =
     (case detectCycle h d path of
        Inl e \<Rightarrow> Inl e
      | Inr True \<Rightarrow> Inr True
      | Inr False \<Rightarrow> detectCycleDeps h ds path)"
  by pat_completeness auto
termination
proof (relation "measures
   [\<lambda>x. case x of Inl (h, n, p) \<Rightarrow> card (heapNames h - set p)
               | Inr (h, ds, p) \<Rightarrow> card (heapNames h - set p),
    \<lambda>x. case x of Inl (h, n, p) \<Rightarrow> 0 | Inr (h, ds, p) \<Rightarrow> Suc (length ds)]", goal_cases)
  case 1
  show ?case by simp
next
  case (2 h n path)
  then have "name (h ! n) \<in> heapNames h - set path"
    by (simp add: heapNames_def)
  moreover have "finite (heapNames h - set path)"
    by (simp add: heapNames_def)
  ultimately have "card (heapNames h - set path - {name (h ! n)}) < card (heapNames h - set path)"
    by (meson card_Diff1_less)
  moreover have "heapNames h - set (path @ [name (h ! n)]) = heapNames h - set path - {name (h ! n)}"
    by auto
  ultimately show ?case by simp
next
  case 3
  show ?case by simp
next
  case 4
  show ?case by simp
qed

declare detectCycle.simps [simp del]

fun detectAll :: "ModuleNode list \<Rightarrow> nat list \<Rightarrow> error + unit" where
  "detectAll h [] = Inr ()"
| "detectAll h (n # ns) =
     (case detectCycle h n [] of Inl e \<Rightarrow> Inl e | Inr b \<Rightarrow> detectAll h ns)"

definition detectCyclicDependencies :: "manager \<Rightarrow> error + unit" where
  "detectCyclicDependencies m = detectAll (heap m) (graphValues m)"

section \<open>Topological order\<close>

text \<open>
  \<open>visit(node)\<close> of \<open>topologicalSort\<close>, on the pair of \<open>visitedModules\<close> and
  \<open>moduleOrder\<close>; \<open>visitDeps\<close> is its loop over \<open>node.dependencies\<close>. The recursion is
  nested (the loop goes on from the state the call returns), so termination needs
  that a call only adds to \<open>visitedModules\<close>. As in \<open>detectCycle\<close>, the test
  \<open>n < length h\<close> is always true of an address taken from the heap.
\<close>

function visit :: "ModuleNode list \<Rightarrow> nat \<Rightarrow> string list \<times> nat list \<Rightarrow> string list \<times> nat list"
  and visitDeps :: "ModuleNode list \<Rightarrow> nat list \<Rightarrow> string list \<times> nat list \<Rightarrow> string list \<times> nat list" where
  "visit h n (visited, order) =
     (if \<not> n < length h then (visited, order)
      else if name (h ! n) \<in> set visited then (visited, order)
      else (case visitDeps h (dependencies (h ! n)) (visited @ [name (h ! n)], order) of
              (visited', order') \<Rightarrow> (visited', order' @ [n])))"
| "visitDeps h [] s = s"
| "visitDeps h (d # ds) s = visitDeps h ds (visit h d s)"
  by pat_completeness auto

lemma visit_visited_mono:
  "visit_visitDeps_dom (Inl (h, n, s)) \<Longrightarrow> set (fst s) \<subseteq> set (fst (visit h n s))"
  "visit_visitDeps_dom (Inr (h, ds, s)) \<Longrightarrow> set (fst s) \<subseteq> set (fst (visitDeps h ds s))"
proof (induct h n s and h ds s rule: visit_visitDeps.pinduct)
  case (1 h n visited order)
  then show ?case
    by (auto simp: visit.psimps split: prod.splits)
next
  case (2 h s)
  then show ?case by (simp add: visitDeps.psimps)
next
  case (3 h d ds s)
  then show ?case by (auto simp: visitDeps.psimps)
qed

termination visit
proof (relation "measures
   [\<lambda>x. case x of Inl (h, n, s) \<Rightarrow> card (heapNames h - set (fst s))
               | Inr (h, ds, s) \<Rightarrow> card (heapNames h - set (fst s)),
    \<lambda>x. case x of Inl (h, n, s) \<Rightarrow> 0 | Inr (h, ds, s) \<Rightarrow> Suc (length ds)]", goal_cases)
  case 1
  show ?case by simp
next
  case (2 h n visited order)
  then have "name (h ! n) \<in> heapNames h - set visited"
    by (simp add: heapNames_def)
  moreover have "finite (heapNames h - set visited)"
    by (simp add: heapNames_def)
  ultimately have "card (heapNames h - set visited - {name (h ! n)}) < card (heapNames h - set visited)"
    by (meson card_Diff1_less)
  moreover have "heapNames h - set (visited @ [name (h ! n)]) = heapNames h - set visited - {name (h ! n)}"
    by auto
  ultimately show ?case by simp
next
  case 3
  show ?case by simp
next
  case (4 h d ds s)
  have "heapNames h - set (fst (visit h d s)) \<subseteq> heapNames h - set (fst s)"
    using visit_visited_mono(1) [OF 4] by blast
  moreover have "finite (heapNames h - set (fst s))"
    by (simp add: heapNames_def)
  ultimately have "card (heapNames h - set (fst (visit h d s))) \<le> card (heapNames h - set (fst s))"
    by (rule card_mono [rotated])
  then show ?case by auto
qed

declare visit.simps [simp del]

fun visitAll ::
  "ModuleNode list \<Rightarrow> nat list \<Rightarrow> string list \<times> nat list \<Rightarrow> string list \<times> nat list" where
  "visitAll h [] s = s"
| "visitAll h (n # ns) s =
     visitAll h ns (if name (h ! n) \<in> set (fst s) then s else visit h n s)"

definition topologicalSort :: "manager \<Rightarrow> manager" where
  "topologicalSort m =
     (case visitAll (heap m) (graphValues m) ([], []) of
        (visited, order) \<Rightarrow> m\<lparr>visitedModules := visited, moduleOrder := order\<rparr>)"

section \<open>Analysing and calculating\<close>

text \<open>
  \<open>history\<close> is the git history: the commit subjects \<open>getCommitsSinceTag\<close> returns for a
  module (none when git fails), keyed by the module's name.
\<close>

definition analyzeChanges :: "(string \<Rightarrow> string list) \<Rightarrow> manager \<Rightarrow> manager" where
  "analyzeChanges history m =
     m\<lparr>heap := foldl
         (\<lambda>h a. h[a := (h ! a)\<lparr>changeType := determineChangeType (history (name (h ! a)))\<rparr>])
         (heap m) (graphValues m)\<rparr>"

definition updateDependents :: "ModuleNode list \<Rightarrow> nat \<Rightarrow> changeType \<Rightarrow> ModuleNode list" where
  "updateDependents h a ct =
     foldl (\<lambda>h d. if changeType (h ! d) = NONE \<or> changeType (h ! d) = PATCH
                   then h[d := (h ! d)\<lparr>changeType := ct\<rparr>] else h)
       h (dependents (h ! a))"

definition setNewVersion :: "ModuleNode list \<Rightarrow> nat \<Rightarrow> string \<Rightarrow> ModuleNode list" where
  "setNewVersion h a v = h[a := (h ! a)\<lparr>newVersion := Some v\<rparr>]"

text \<open>The body of the loop of \<open>calculateNewVersions\<close>: the \<open>switch\<close> on \<open>node.changeType\<close>.\<close>

definition calculateNode :: "ModuleNode list \<Rightarrow> nat \<Rightarrow> error + ModuleNode list" where
  "calculateNode h a =
     (case changeType (h ! a) of
        MAJOR \<Rightarrow>
          (case incrementVersion (currentVersion (h ! a)) ''major'' of
             Inl e \<Rightarrow> Inl e
           | Inr v \<Rightarrow> Inr (updateDependents (setNewVersion h a v) a MINOR))
      | MINOR \<Rightarrow>
          (case incrementVersion (currentVersion (h ! a)) ''minor'' of
             Inl e \<Rightarrow> Inl e
           | Inr v \<Rightarrow> Inr (setNewVersion h a v))
      | PATCH \<Rightarrow>
          (case incrementVersion (currentVersion (h ! a)) ''patch'' of
             Inl e \<Rightarrow> Inl e
           | Inr v \<Rightarrow> Inr (setNewVersion h a v))
      | NONE \<Rightarrow>
          if list_ex (\<lambda>dep. changeType (h ! dep) = MAJOR) (dependencies (h ! a)) then
            (case incrementVersion (currentVersion (h ! a)) ''minor'' of
               Inl e \<Rightarrow> Inl e
             | Inr v \<Rightarrow> Inr (setNewVersion h a v))
          else Inr (setNewVersion h a (currentVersion (h ! a))))"

fun calculateLoop :: "ModuleNode list \<Rightarrow> nat list \<Rightarrow> error + ModuleNode list" where
  "calculateLoop h [] = Inr h"
| "calculateLoop h (a # as) =
     (case calculateNode h a of Inl e \<Rightarrow> Inl e | Inr h' \<Rightarrow> calculateLoop h' as)"

definition calculateNewVersions :: "manager \<Rightarrow> error + manager" where
  "calculateNewVersions m =
     (let m1 = topologicalSort m
      in case calculateLoop (heap m1) (moduleOrder m1) of
           Inl e \<Rightarrow> Inl e
         | Inr h \<Rightarrow> Inr (m1\<lparr>heap := h\<rparr>))"

section \<open>Applying the versions\<close>

text \<open>
  The writer is the file system under \<open>updateGradleVersion\<close>: the model records each
  \<open>writeFileSync\<close> as the pair of the module's name and the version handed to
  \<open>content.replace\<close>, and returns the module's name for the path of the file. The content
  written is not modelled: it is the old content with the first version declaration
  replaced, so a file without a declaration is written back as it was. \<open>truthy\<close> is the
  test \<open>if (node.newVersion)\<close>.
\<close>

definition truthy :: "string option \<Rightarrow> bool" where
  "truthy v = (case v of None \<Rightarrow> False | Some s \<Rightarrow> s \<noteq> [])"

definition updateGradleVersion ::
  "bool \<Rightarrow> ModuleNode \<Rightarrow> (string \<times> string) list \<Rightarrow> string option \<times> (string \<times> string) list" where
  "updateGradleVersion dry node writes =
     (if \<not> dry
      then (Some (name node),
            writes @ [(name node, case newVersion node of Some v \<Rightarrow> v | None \<Rightarrow> ''null'')])
      else (None, writes))"

text \<open>
  The first loop of \<open>updateVersions\<close>, over \<open>moduleOrder\<close>: \<open>modifiedFiles\<close> and the writes
  made. The commit and the tags that follow go to the publisher and are not modelled.
\<close>

definition updateVersionsStep ::
  "bool \<Rightarrow> ModuleNode list \<Rightarrow> string list \<times> (string \<times> string) list \<Rightarrow> nat
   \<Rightarrow> string list \<times> (string \<times> string) list" where
  "updateVersionsStep dry h s a =
     (if truthy (newVersion (h ! a)) then
        (case updateGradleVersion dry (h ! a) (snd s) of
           (Some file, writes) \<Rightarrow> (fst s @ [file], writes)
         | (None, writes) \<Rightarrow> (fst s, writes))
      else s)"

definition updateVersions :: "manager \<Rightarrow> string list \<times> (string \<times> string) list" where
  "updateVersions m = foldl (updateVersionsStep (dryRun m) (heap m)) ([], []) (moduleOrder m)"

text \<open>
  \<open>execute\<close> up to the first loop of \<open>updateVersions\<close>: the manager after the calculation,
  with the files modified and the writes made (none in a dry run). A dry run ends there,
  after printing. In apply mode the source goes on to \<open>commitChanges\<close>, \<open>createGitTag\<close> and
  \<open>generateChangelogs\<close>, which talk to git and the hosting service and are not modelled: the
  value for apply mode is the state when the first loop is done, not a statement that the
  rest of the run succeeds.
\<close>

definition execute ::
  "(string \<Rightarrow> string option) \<Rightarrow> string list \<Rightarrow> (string \<Rightarrow> string list) \<Rightarrow> bool
   \<Rightarrow> error + manager \<times> string list \<times> (string \<times> string) list" where
  "execute files moduleMatches history dry =
     (let m1 = buildDependencyGraph files moduleMatches (newManager dry)
      in case detectCyclicDependencies m1 of
           Inl e \<Rightarrow> Inl e
         | Inr u \<Rightarrow>
             (case calculateNewVersions (analyzeChanges history m1) of
                Inl e \<Rightarrow> Inl e
              | Inr m2 \<Rightarrow> Inr (m2, if dry then ([], []) else updateVersions m2)))"

section \<open>Specification predicates and examples\<close>

text \<open>
  Every entry of the graph points at a node of the heap that carries the entry's key as
  its name: what \<open>buildDependencyGraph\<close> maintains.
\<close>

definition graphSound :: "manager \<Rightarrow> bool" where
  "graphSound m = (\<forall>(k, d) \<in> set (moduleGraph m). d < length (heap m) \<and> name (heap m ! d) = k)"

text \<open>
  A build file with a version declaration and one \<open>implementation(project(":d"))\<close> line
  for each dependency, and the project of three modules used in the examples: \<open>core\<close>,
  \<open>app\<close> that depends on \<open>core\<close>, and \<open>lib\<close> that depends on \<open>app\<close>; \<open>core\<close> has one breaking
  commit.
\<close>

definition gradleFile :: "string \<Rightarrow> string list \<Rightarrow> string" where
  "gradleFile v deps =
     ''version = '' @ [CHR 0x22] @ v @ [CHR 0x22] @
     concat (map (\<lambda>d. [CHR 0x0A] @ ''implementation(project('' @ [CHR 0x22] @ '':'' @ d
                        @ [CHR 0x22] @ ''))'') deps)"

definition demoFiles :: "string \<Rightarrow> string option" where
  "demoFiles n =
     (if n = ''core'' then Some (gradleFile ''1.0.0'' [])
      else if n = ''app'' then Some (gradleFile ''2.1.3'' [''core''])
      else if n = ''lib'' then Some (gradleFile ''0.4.0'' [''app''])
      else None)"

definition demoHistory :: "string \<Rightarrow> string list" where
  "demoHistory n = (if n = ''core'' then [''feat!: remove X''] else [])"

text \<open>
  A walk along dependency edges: a non-empty list of addresses of the heap, each next one
  a dependency of the one before it. \<open>namesOf\<close> reads the names of the modules on it.
\<close>

fun isWalk :: "ModuleNode list \<Rightarrow> nat list \<Rightarrow> bool" where
  "isWalk h [] = False"
| "isWalk h [a] = (a < length h)"
| "isWalk h (a # b # w) = (a < length h \<and> b \<in> set (dependencies (h ! a)) \<and> isWalk h (b # w))"

definition namesOf :: "ModuleNode list \<Rightarrow> nat list \<Rightarrow> string list" where
  "namesOf h w = map (\<lambda>a. name (h ! a)) w"

text \<open>\<open>b\<close> is reached from \<open>a\<close> along at least one dependency edge.\<close>

definition reaches :: "ModuleNode list \<Rightarrow> nat \<Rightarrow> nat \<Rightarrow> bool" where
  "reaches h a b = (\<exists>w. isWalk h (a # w @ [b]))"

text \<open>
  The graph as built has a directed dependency cycle: a walk that starts at a module of
  the graph comes back to a module (name) it has already passed.
\<close>

definition hasCycle :: "manager \<Rightarrow> bool" where
  "hasCycle m =
     (\<exists>w. isWalk (heap m) w \<and> hd w \<in> set (graphValues m) \<and> \<not> distinct (namesOf (heap m) w))"

text \<open>
  A module graph as the specification describes it: every entry points at the node that
  carries its key as name, keys are unique, and every edge of a module of the graph goes
  to a module of the graph.
\<close>

definition wfGraph :: "manager \<Rightarrow> bool" where
  "wfGraph m =
     (graphSound m \<and> distinct (map fst (moduleGraph m))
      \<and> (\<forall>a\<in>set (graphValues m). set (dependencies (heap m ! a)) \<subseteq> set (graphValues m)))"

text \<open>Every dependency of a module of the order stands before that module.\<close>

definition depsBefore :: "ModuleNode list \<Rightarrow> nat list \<Rightarrow> bool" where
  "depsBefore h ord = (\<forall>i<length ord. \<forall>d\<in>set (dependencies (h ! (ord ! i))). \<exists>j<i. ord ! j = d)"

text \<open>\<open>dependents\<close> mirrors \<open>dependencies\<close>: a dependent of \<open>a\<close> is a module of the graph that
  has \<open>a\<close> among its dependencies.\<close>

definition dependentsMirror :: "manager \<Rightarrow> bool" where
  "dependentsMirror m =
     (\<forall>a\<in>set (graphValues m). \<forall>b\<in>set (dependents (heap m ! a)).
        b \<in> set (graphValues m) \<and> a \<in> set (dependencies (heap m ! b)))"

text \<open>
  The chain \<open>A \<rightarrow> B \<rightarrow> C\<close> of three modules with distinct names at the addresses 0, 1, 2:
  \<open>B\<close> depends on \<open>A\<close>, \<open>C\<close> on \<open>B\<close>; \<open>A\<close> is classified \<open>major\<close>, \<open>B\<close> and \<open>C\<close> \<open>none\<close>.
\<close>

definition isChain :: "manager \<Rightarrow> bool" where
  "isChain m =
     (length (heap m) = 3 \<and> graphValues m = [0, 1, 2] \<and> distinct (map name (heap m))
      \<and> map dependencies (heap m) = [[], [0], [1]]
      \<and> map dependents (heap m) = [[1], [2], []]
      \<and> map changeType (heap m) = [MAJOR, NONE, NONE])"

text \<open>
  The content has a version declaration: somewhere in it stands a text that the pattern
  \<open>version\s*=\s*['"]([^'"]+)['"]\<close> describes.
\<close>

definition hasVersionDeclaration :: "string \<Rightarrow> bool" where
  "hasVersionDeclaration c =
     (\<exists>pre ws1 ws2 q1 v q2 post.
        c = pre @ ''version'' @ ws1 @ ''='' @ ws2 @ q1 # v @ q2 # post
        \<and> list_all isSpace ws1 \<and> list_all isSpace ws2 \<and> isQuote q1 \<and> isQuote q2
        \<and> v \<noteq> [] \<and> list_all (\<lambda>x. \<not> isQuote x) v)"

section \<open>Auxiliary definitions for the proofs\<close>

text \<open>
  For the proof that the order is topological: the grey modules are those marked visited
  and not yet placed in the order (the callers of the running \<open>visit\<close>); \<open>topoInv\<close> is
  what holds of the visited set and the order between calls, \<open>graphOK\<close> what is assumed
  of the graph.
\<close>

definition grey :: "ModuleNode list \<Rightarrow> nat set \<Rightarrow> string list \<times> nat list \<Rightarrow> nat set" where
  "grey h G s = {g \<in> G. name (h ! g) \<in> set (fst s) \<and> g \<notin> set (snd s)}"

definition topoInv :: "ModuleNode list \<Rightarrow> nat set \<Rightarrow> string list \<times> nat list \<Rightarrow> bool" where
  "topoInv h G s =
     (set (snd s) \<subseteq> G \<and> distinct (snd s) \<and> (\<lambda>a. name (h ! a)) ` set (snd s) \<subseteq> set (fst s)
      \<and> depsBefore h (snd s))"

definition graphOK :: "ModuleNode list \<Rightarrow> nat set \<Rightarrow> bool" where
  "graphOK h G =
     ((\<forall>a\<in>G. a < length h) \<and> inj_on (\<lambda>a. name (h ! a)) G
      \<and> (\<forall>a\<in>G. set (dependencies (h ! a)) \<subseteq> G)
      \<and> (\<forall>w. isWalk h w \<and> hd w \<in> G \<longrightarrow> distinct (namesOf h w)))"

text \<open>
  For the graphs that \<open>buildDependencyGraph\<close> makes: every edge stays inside the heap, and
  \<open>dependents\<close> is the mirror image of \<open>dependencies\<close> on all of the heap.
\<close>

definition mirrored :: "ModuleNode list \<Rightarrow> bool" where
  "mirrored h =
     ((\<forall>a<length h. \<forall>d\<in>set (dependencies (h ! a)). d < length h)
      \<and> (\<forall>d<length h. \<forall>a. a \<in> set (dependents (h ! d))
            \<longleftrightarrow> a < length h \<and> d \<in> set (dependencies (h ! a))))"

text \<open>
  For the calculation: \<open>bump v t\<close> is the string \<open>incrementVersion\<close> returns for the types
  \<open>major\<close>, \<open>minor\<close> and \<open>patch\<close> (it returns one for every version, see
  \<open>incrementVersion_bump\<close>), \<open>bumpDependent\<close> the body of the loop of \<open>updateDependents\<close> and
  \<open>calculated\<close> the body of the loop of \<open>calculateNewVersions\<close> as a total function.
\<close>

definition bump :: "string \<Rightarrow> string \<Rightarrow> string" where
  "bump v t = projr (incrementVersion v t)"

definition bumpDependent :: "changeType \<Rightarrow> ModuleNode list \<Rightarrow> nat \<Rightarrow> ModuleNode list" where
  "bumpDependent ct h d =
     (if changeType (h ! d) = NONE \<or> changeType (h ! d) = PATCH
      then h[d := (h ! d)\<lparr>changeType := ct\<rparr>] else h)"

definition calculated :: "ModuleNode list \<Rightarrow> nat \<Rightarrow> ModuleNode list" where
  "calculated h a =
     (case changeType (h ! a) of
        MAJOR \<Rightarrow> updateDependents (setNewVersion h a (bump (currentVersion (h ! a)) ''major'')) a MINOR
      | MINOR \<Rightarrow> setNewVersion h a (bump (currentVersion (h ! a)) ''minor'')
      | PATCH \<Rightarrow> setNewVersion h a (bump (currentVersion (h ! a)) ''patch'')
      | NONE \<Rightarrow>
          if list_ex (\<lambda>dep. changeType (h ! dep) = MAJOR) (dependencies (h ! a))
          then setNewVersion h a (bump (currentVersion (h ! a)) ''minor'')
          else setNewVersion h a (currentVersion (h ! a)))"

section \<open>More examples\<close>

text \<open>
  More examples: two modules that declare each other, the second listed twice (the second
  \<open>a\<close> gets its edge to \<open>b\<close>, whose edge points at the first \<open>a\<close>); the demo project built
  and analysed; \<open>app\<close> listed before and after \<open>core\<close>; a module that declares itself as
  a dependency; a build file with no version.
\<close>

definition cyclicFiles :: "string \<Rightarrow> string option" where
  "cyclicFiles n =
     (if n = ''a'' then Some (gradleFile ''1.0.0'' [''b''])
      else if n = ''b'' then Some (gradleFile ''1.0.0'' [''a''])
      else None)"

definition demoAnalysed :: manager where
  "demoAnalysed =
     analyzeChanges demoHistory
       (buildDependencyGraph demoFiles [''core'', ''app'', ''lib''] (newManager True))"

definition cyclicBuilt :: manager where
  "cyclicBuilt = buildDependencyGraph cyclicFiles [''a'', ''b'', ''a''] (newManager True)"

definition reorderedBuilt :: manager where
  "reorderedBuilt = buildDependencyGraph demoFiles [''app'', ''core'', ''app''] (newManager True)"

definition selfFiles :: "string \<Rightarrow> string option" where
  "selfFiles n = (if n = ''s'' then Some (gradleFile ''1.0.0'' [''s'']) else None)"

definition selfBuilt :: manager where
  "selfBuilt = buildDependencyGraph selfFiles [''s''] (newManager True)"

definition bareFiles :: "string \<Rightarrow> string option" where
  "bareFiles n = (if n = ''tool'' then Some ''plugins { java }'' else None)"

definition bareHistory :: "string \<Rightarrow> string list" where
  "bareHistory n = [''fix: typo'']"

section \<open>Properties of the classifier\<close>

lemma startsWith_prefix: "startsWith s p \<longleftrightarrow> prefix p s"
  by (induction s p rule: startsWith.induct) auto

lemma includesStr_sublist: "includesStr s t \<longleftrightarrow> sublist t s"
  by (induction s) (auto simp: startsWith_prefix sublist_Cons_right)

lemma classifyFrom_breaking:
  "breaking c \<Longrightarrow> classifyFrom ct (pre @ c # post) = MAJOR"
  by (induction pre arbitrary: ct) auto


lemma classifyFrom_fix:
  "startsWith c ''fix:'' \<Longrightarrow> \<not> breaking c \<Longrightarrow>
   classifyFrom ct (c # cs) = classifyFrom (if ct = NONE then PATCH else ct) cs"
  by (auto simp: startsWith_prefix prefix_def)

lemma classifyFrom_other:
  "\<not> breaking c \<Longrightarrow> \<not> startsWith c ''feat:'' \<Longrightarrow> \<not> startsWith c ''fix:'' \<Longrightarrow>
   classifyFrom ct (c # cs) = classifyFrom ct cs"
  by simp

text \<open>
  Claim C5. The classifier has the reference behaviour: no commit gives \<open>none\<close>; a commit
  that starts with \<open>feat!:\<close> or contains \<open>BREAKING CHANGE\<close> gives \<open>major\<close> whatever
  stands before or after it; \<open>["fix: a", "feat: b"]\<close> gives \<open>minor\<close>; \<open>["fix: a"]\<close> and
  \<open>["fix: a", "fix: b"]\<close> give \<open>patch\<close>; a commit that starts with \<open>fix:\<close> (and is not
  breaking) moves the running severity to \<open>patch\<close> exactly when it is \<open>none\<close> and leaves
  it alone otherwise; a commit that matches no pattern leaves the running severity
  unchanged.
\<close>

theorem determineChangeType_reference:
  "determineChangeType [] = NONE
   \<and> (\<forall>pre c post. startsWith c ''feat!:'' \<or> includesStr c ''BREAKING CHANGE''
          \<longrightarrow> determineChangeType (pre @ c # post) = MAJOR)
   \<and> (\<forall>post. determineChangeType (''feat!: x'' # post) = MAJOR)
   \<and> determineChangeType [''fix: a'', ''feat: b''] = MINOR
   \<and> determineChangeType [''fix: a''] = PATCH
   \<and> determineChangeType [''fix: a'', ''fix: b''] = PATCH
   \<and> (\<forall>ct c cs. startsWith c ''fix:'' \<and> \<not> breaking c
          \<longrightarrow> classifyFrom ct (c # cs) = classifyFrom (if ct = NONE then PATCH else ct) cs)
   \<and> (\<forall>ct c cs. \<not> breaking c \<and> \<not> startsWith c ''feat:'' \<and> \<not> startsWith c ''fix:''
          \<longrightarrow> classifyFrom ct (c # cs) = classifyFrom ct cs)"
proof -
  have brk: "\<forall>pre c post. startsWith c ''feat!:'' \<or> includesStr c ''BREAKING CHANGE''
          \<longrightarrow> determineChangeType (pre @ c # post) = MAJOR"
    unfolding determineChangeType_def using classifyFrom_breaking
    by (simp add: breaking_def)
  have ex0: "\<forall>post. determineChangeType (''feat!: x'' # post) = MAJOR"
    by (simp add: determineChangeType_def breaking_def)
  have ex1: "determineChangeType [''fix: a'', ''feat: b''] = MINOR"
    by (simp add: determineChangeType_def breaking_def)
  have ex2: "determineChangeType [''fix: a''] = PATCH"
    by (simp add: determineChangeType_def breaking_def)
  have ex3: "determineChangeType [''fix: a'', ''fix: b''] = PATCH"
    by (simp add: determineChangeType_def breaking_def)
  have fx: "\<forall>ct c cs. startsWith c ''fix:'' \<and> \<not> breaking c
          \<longrightarrow> classifyFrom ct (c # cs) = classifyFrom (if ct = NONE then PATCH else ct) cs"
    using classifyFrom_fix by blast
  have oth: "\<forall>ct c cs. \<not> breaking c \<and> \<not> startsWith c ''feat:'' \<and> \<not> startsWith c ''fix:''
          \<longrightarrow> classifyFrom ct (c # cs) = classifyFrom ct cs"
    using classifyFrom_other by blast
  have e0: "determineChangeType [] = NONE"
    by (simp add: determineChangeType_def)
  show ?thesis
    by (intro conjI) (fact e0, fact brk, fact ex0, fact ex1, fact ex2, fact ex3, fact fx, fact oth)
qed

theorem determineChangeType_reference_witness:
  "determineChangeType ([''fix: a''] @ ''docs: BREAKING CHANGE ahead'' # [''feat: b'']) = MAJOR
   \<and> classifyFrom MINOR (''fix: a'' # [''chore: c'']) = classifyFrom MINOR [''chore: c'']
   \<and> classifyFrom NONE (''fix: a'' # [''chore: c'']) = classifyFrom PATCH [''chore: c'']
   \<and> classifyFrom PATCH (''chore: c'' # []) = classifyFrom PATCH []"
proof -
  have b: "includesStr ''docs: BREAKING CHANGE ahead'' ''BREAKING CHANGE''"
    by simp
  have f: "startsWith ''fix: a'' ''fix:'' \<and> \<not> breaking ''fix: a''"
    by (simp add: breaking_def)
  have n: "\<not> breaking ''chore: c'' \<and> \<not> startsWith ''chore: c'' ''feat:''
           \<and> \<not> startsWith ''chore: c'' ''fix:''"
    by (simp add: breaking_def)
  note ref = determineChangeType_reference
  have brk: "\<forall>pre c post. startsWith c ''feat!:'' \<or> includesStr c ''BREAKING CHANGE''
          \<longrightarrow> determineChangeType (pre @ c # post) = MAJOR"
    using ref by (elim conjE)
  have fx: "\<forall>ct c cs. startsWith c ''fix:'' \<and> \<not> breaking c
          \<longrightarrow> classifyFrom ct (c # cs) = classifyFrom (if ct = NONE then PATCH else ct) cs"
    using ref by (elim conjE)
  have oth: "\<forall>ct c cs. \<not> breaking c \<and> \<not> startsWith c ''feat:'' \<and> \<not> startsWith c ''fix:''
          \<longrightarrow> classifyFrom ct (c # cs) = classifyFrom ct cs"
    using ref by (elim conjE)
  have 1: "determineChangeType ([''fix: a''] @ ''docs: BREAKING CHANGE ahead'' # [''feat: b''])
           = MAJOR"
    using brk b by blast
  have 2: "classifyFrom MINOR (''fix: a'' # [''chore: c'']) = classifyFrom MINOR [''chore: c'']"
    using fx [rule_format, of "''fix: a''" MINOR "[''chore: c'']"] f by simp
  have 3: "classifyFrom NONE (''fix: a'' # [''chore: c'']) = classifyFrom PATCH [''chore: c'']"
    using fx [rule_format, of "''fix: a''" NONE "[''chore: c'']"] f by simp
  have 4: "classifyFrom PATCH (''chore: c'' # []) = classifyFrom PATCH []"
    using oth [rule_format, of "''chore: c''" PATCH "[]"] n by blast
  show ?thesis
    by (intro conjI) (fact 1, fact 2, fact 3, fact 4)
qed

section \<open>Properties of \<open>incrementVersion\<close>\<close>

lemma showNat_small: "n < 10 \<Longrightarrow> showNat n = [digitChar n]"
  by (subst showNat.simps) simp

lemma showNat_big: "\<not> n < 10 \<Longrightarrow> showNat n = showNat (n div 10) @ [digitChar (n mod 10)]"
  by (subst showNat.simps) simp

lemma lt10: "(d::nat) < 10 \<Longrightarrow> d \<in> {0,1,2,3,4,5,6,7,8,9}"
  by auto

lemma digitVal_digitChar: "d < 10 \<Longrightarrow> digitVal (digitChar d) = d"
  by (drule lt10) (auto simp: digitChar_def digitVal_def)

lemma isDigit_digitChar: "d < 10 \<Longrightarrow> isDigit (digitChar d)"
  by (drule lt10) (auto simp: digitChar_def isDigit_def)

lemma isDigit_plain: "isDigit c \<Longrightarrow> \<not> isSpace c \<and> c \<noteq> CHR ''.'' \<and> c \<noteq> CHR ''-'' \<and> c \<noteq> CHR ''+''"
  by (auto simp: isDigit_def isSpace_def)

lemma showNat_digits: "list_all isDigit (showNat n)"
  by (induction n rule: showNat.induct) (subst showNat.simps, simp add: isDigit_digitChar)

lemma showNat_nonempty: "showNat n \<noteq> []"
  by (subst showNat.simps) simp

lemma digitsVal_snoc: "digitsVal (s @ [c]) = 10 * digitsVal s + digitVal c"
  by (simp add: digitsVal_def)

lemma digitsVal_showNat: "digitsVal (showNat n) = n"
proof (induction n rule: showNat.induct)
  case (1 n)
  show ?case
  proof (cases "n < 10")
    case True
    then show ?thesis by (subst showNat.simps) (simp add: digitsVal_def digitVal_digitChar)
  next
    case False
    with 1 show ?thesis by (subst showNat.simps) (simp add: digitsVal_snoc digitVal_digitChar)
  qed
qed

lemma dropWhile_none: "\<forall>c\<in>set s. \<not> P c \<Longrightarrow> dropWhile P s = s"
  by (cases s) auto

lemma trim_plain: "\<forall>c\<in>set s. \<not> isSpace c \<Longrightarrow> trim s = s"
  by (simp add: trim_def dropWhile_none)

lemma showNat_plain:
  "c \<in> set (showNat n) \<Longrightarrow> \<not> isSpace c \<and> c \<noteq> CHR ''.'' \<and> c \<noteq> CHR ''-'' \<and> c \<noteq> CHR ''+''"
  using showNat_digits [of n] isDigit_plain by (auto simp: list_all_iff)

lemma digits_literal: "u \<noteq> [] \<Longrightarrow> list_all isDigit u \<Longrightarrow> isUnsignedDecimal u"
  by (cases u) (simp_all add: isUnsignedDecimal_def Let_def list_all_iff)

lemma Number_showNat: "int n \<le> maxExact \<Longrightarrow> Number (showNat n) = Integer (int n)"
proof -
  assume le: "int n \<le> maxExact"
  have t: "trim (showNat n) = showNat n"
    using showNat_plain by (intro trim_plain) blast
  have h: "hd (showNat n) \<in> set (showNat n)"
    using showNat_nonempty by simp
  have s: "hd (showNat n) \<noteq> CHR ''-''" "hd (showNat n) \<noteq> CHR ''+''"
    using showNat_plain [OF h] by auto
  have u: "unsigned (showNat n) = showNat n"
    using s by (simp add: unsigned_def)
  have l: "isStrNumericLiteral (showNat n)"
    using digits_literal [OF showNat_nonempty showNat_digits, of n]
    by (simp add: isStrNumericLiteral_def u)
  show ?thesis
    using le by (simp add: Number_def t s u l showNat_nonempty showNat_digits digitsVal_showNat)
qed

lemma splitDot_plain: "CHR ''.'' \<notin> set a \<Longrightarrow> splitDot a = [a]"
  by (induction a) auto

lemma splitDot_append: "CHR ''.'' \<notin> set a \<Longrightarrow> splitDot (a @ CHR ''.'' # r) = a # splitDot r"
  by (induction a) auto

lemma splitDot_versionOf: "splitDot (versionOf M N P) = [showNat M, showNat N, showNat P]"
proof -
  have d: "CHR ''.'' \<notin> set (showNat k)" for k
    using showNat_plain [of "CHR ''.''" k] by blast
  show ?thesis
    by (simp add: versionOf_def splitDot_append splitDot_plain d)
qed

lemma toStr_nat: "toStr (Some (Integer (int n))) = showNat n"
  by (simp add: showInt_def)

lemma incrementVersion_three:
  assumes "splitDot v = [a, b, c]"
  shows "incrementVersion v ''major'' = Inr (toStr (Some (plus1 (Some (Number a)))) @ ''.0.0'')"
    and "incrementVersion v ''minor''
         = Inr (toStr (Some (Number a)) @ ''.'' @ toStr (Some (plus1 (Some (Number b)))) @ ''.0'')"
    and "incrementVersion v ''patch''
         = Inr (toStr (Some (Number a)) @ ''.'' @ toStr (Some (Number b)) @ ''.''
                @ toStr (Some (plus1 (Some (Number c)))))"
  using assms by (simp_all add: incrementVersion_def component_def)

lemma plus1_nat: "int n < maxExact \<Longrightarrow> plus1 (Some (Integer (int n))) = Integer (int (n + 1))"
  by simp

lemma showNat_0: "showNat 0 = ''0''"
  by (simp add: showNat_small digitChar_def)

lemma incrementVersion_major:
  assumes "int M < maxExact"
  shows "incrementVersion (versionOf M N P) ''major'' = Inr (versionOf (M + 1) 0 0)"
proof -
  have "incrementVersion (versionOf M N P) ''major''
        = Inr (toStr (Some (plus1 (Some (Number (showNat M))))) @ ''.0.0'')"
  by (rule incrementVersion_three(1) [OF splitDot_versionOf])
  also have "Number (showNat M) = Integer (int M)"
    using assms by (simp add: Number_showNat)
  also have "plus1 (Some (Integer (int M))) = Integer (int (M + 1))"
    using assms by (rule plus1_nat)
  also have "toStr (Some (Integer (int (M + 1)))) = showNat (M + 1)"
  by (rule toStr_nat)
  finally show ?thesis
    by (simp add: versionOf_def showNat_0)
qed

lemma incrementVersion_minor:
  assumes "int M \<le> maxExact" "int N < maxExact"
  shows "incrementVersion (versionOf M N P) ''minor'' = Inr (versionOf M (N + 1) 0)"
proof -
  have "incrementVersion (versionOf M N P) ''minor''
        = Inr (toStr (Some (Number (showNat M))) @ ''.''
               @ toStr (Some (plus1 (Some (Number (showNat N))))) @ ''.0'')"
  by (rule incrementVersion_three(2) [OF splitDot_versionOf])
  also have "Number (showNat M) = Integer (int M)"
    using assms by (simp add: Number_showNat)
  also have "Number (showNat N) = Integer (int N)"
    using assms by (simp add: Number_showNat)
  also have "plus1 (Some (Integer (int N))) = Integer (int (N + 1))"
    using assms by (intro plus1_nat)
  finally show ?thesis
    unfolding toStr_nat by (simp add: versionOf_def showNat_0)
qed

lemma incrementVersion_patch:
  assumes "int M \<le> maxExact" "int N \<le> maxExact" "int P < maxExact"
  shows "incrementVersion (versionOf M N P) ''patch'' = Inr (versionOf M N (P + 1))"
proof -
  have "incrementVersion (versionOf M N P) ''patch''
        = Inr (toStr (Some (Number (showNat M))) @ ''.'' @ toStr (Some (Number (showNat N)))
               @ ''.'' @ toStr (Some (plus1 (Some (Number (showNat P))))))"
  by (rule incrementVersion_three(3) [OF splitDot_versionOf])
  also have "Number (showNat M) = Integer (int M)"
    using assms by (simp add: Number_showNat)
  also have "Number (showNat N) = Integer (int N)"
    using assms by (simp add: Number_showNat)
  also have "Number (showNat P) = Integer (int P)"
    using assms by (simp add: Number_showNat)
  also have "plus1 (Some (Integer (int P))) = Integer (int (P + 1))"
    using assms by (intro plus1_nat)
  finally show ?thesis
    unfolding toStr_nat by (simp add: versionOf_def)
qed

lemma incrementVersion_major_max:
  assumes "int M = maxExact"
  shows "incrementVersion (versionOf M N P) ''major'' = Inr (versionOf M 0 0)"
proof -
  have "incrementVersion (versionOf M N P) ''major''
        = Inr (toStr (Some (plus1 (Some (Number (showNat M))))) @ ''.0.0'')"
  by (rule incrementVersion_three(1) [OF splitDot_versionOf])
  also have "Number (showNat M) = Integer (int M)"
    using assms by (simp add: Number_showNat)
  also have "plus1 (Some (Integer (int M))) = Integer (int M)"
    using assms by simp
  finally show ?thesis
    unfolding toStr_nat by (simp add: versionOf_def showNat_0)
qed

lemma maxExact_power: "maxExact = 2 ^ 53"
  by (simp add: maxExact_def)

lemma below_maxExact: "n < 2 ^ 53 \<Longrightarrow> int n < maxExact"
  by (simp add: maxExact_def)

lemma showNat_maxExact: "showNat 9007199254740992 = ''9007199254740992''"
  by (simp add: showNat_small showNat_big digitChar_def)

lemma incrementVersion_result:
  "incrementVersion v t =
     (if t \<in> {''major'', ''minor'', ''patch''}
      then Inr (projr (incrementVersion v t)) else Inl (UnknownIncrementType t))"
  by (simp add: incrementVersion_def Let_def)

lemma Number_NaN_iff:
  "Number s = NaN \<longleftrightarrow> trim s \<noteq> [] \<and> \<not> isStrNumericLiteral (trim s)"
  by (simp add: Number_def Let_def)

text \<open>
  Claim C3, as the code has it. No version string makes \<open>incrementVersion\<close> fail: for
  every string, well-formed or not, each of the bump types \<open>major\<close>, \<open>minor\<close> and \<open>patch\<close>
  returns a string, and the only error the function raises is the one for an unknown
  bump type. A malformed version is coerced: a first part that \<open>Number\<close> does not read
  gives a major bump of \<open>NaN.0.0\<close>, and a version with fewer than three parts gives a patch
  bump that ends in \<open>.NaN\<close>. The parts \<open>Number\<close> does not read are exactly those that, once
  trimmed, are neither empty nor a numeric literal (\<open>v1\<close>, \<open>1x\<close>, \<open>3-SNAPSHOT\<close>).
\<close>

theorem incrementVersion_never_rejects_version:
  "(\<forall>v. \<exists>a b c. incrementVersion v ''major'' = Inr a \<and> incrementVersion v ''minor'' = Inr b
         \<and> incrementVersion v ''patch'' = Inr c)
   \<and> (\<forall>v t e. incrementVersion v t = Inl e \<longrightarrow>
         e = UnknownIncrementType t \<and> t \<notin> {''major'', ''minor'', ''patch''})
   \<and> (\<forall>v. Number (hd (splitDot v)) = NaN \<longrightarrow> incrementVersion v ''major'' = Inr ''NaN.0.0'')
   \<and> (\<forall>v. length (splitDot v) < 3 \<longrightarrow>
         (\<exists>s. incrementVersion v ''patch'' = Inr (s @ ''.NaN'')))
   \<and> (\<forall>s. Number s = NaN \<longleftrightarrow> trim s \<noteq> [] \<and> \<not> isStrNumericLiteral (trim s))"
proof -
  have 1: "\<forall>v. \<exists>a b c. incrementVersion v ''major'' = Inr a \<and> incrementVersion v ''minor'' = Inr b
         \<and> incrementVersion v ''patch'' = Inr c"
    by (simp add: incrementVersion_def Let_def)
  have 2: "\<forall>v t e. incrementVersion v t = Inl e \<longrightarrow>
         e = UnknownIncrementType t \<and> t \<notin> {''major'', ''minor'', ''patch''}"
    by (auto simp: incrementVersion_def Let_def split: if_splits)
  have ne: "splitDot v \<noteq> []" for v
    by (cases v) auto
  have 3: "\<forall>v. Number (hd (splitDot v)) = NaN \<longrightarrow> incrementVersion v ''major'' = Inr ''NaN.0.0''"
    using ne by (simp add: incrementVersion_def component_def hd_conv_nth)
  have 4: "\<forall>v. length (splitDot v) < 3 \<longrightarrow>
         (\<exists>s. incrementVersion v ''patch'' = Inr (s @ ''.NaN''))"
  proof (intro allI impI)
    fix v
    assume "length (splitDot v) < 3"
    then have "incrementVersion v ''patch''
        = Inr ((toStr (component (map Number (splitDot v)) 0) @ ''.''
                @ toStr (component (map Number (splitDot v)) 1)) @ ''.NaN'')"
      by (simp add: incrementVersion_def component_def Let_def)
    then show "\<exists>s. incrementVersion v ''patch'' = Inr (s @ ''.NaN'')"
      by blast
  qed
  have 5: "\<forall>s. Number s = NaN \<longleftrightarrow> trim s \<noteq> [] \<and> \<not> isStrNumericLiteral (trim s)"
    by (simp add: Number_NaN_iff)
  show ?thesis
    by (intro conjI) (fact 1, fact 2, fact 3, fact 4, fact 5)
qed

lemmas evalNumber = Number_def trim_def isSpace_def isDigit_def digitsVal_def digitVal_def
  component_def showInt_def showNat_small showNat_big digitChar_def maxExact_def Let_def
  isStrNumericLiteral_def unsigned_def isUnsignedDecimal_def isNonDecimal_def isExponentPart_def
  isHexDigit_def isOctalDigit_def isBinaryDigit_def

theorem incrementVersion_never_rejects_version_witness:
  "incrementVersion ''1.x'' ''bump'' = Inl (UnknownIncrementType ''bump'')
   \<and> incrementVersion ''v1.2.3'' ''major'' = Inr ''NaN.0.0''
   \<and> incrementVersion ''1x.0.0'' ''major'' = Inr ''NaN.0.0''
   \<and> incrementVersion ''3-SNAPSHOT'' ''major'' = Inr ''NaN.0.0''
   \<and> (\<exists>s. incrementVersion ''1.2'' ''patch'' = Inr (s @ ''.NaN''))"
proof -
  note T = incrementVersion_never_rejects_version
  have e: "\<forall>v t e. incrementVersion v t = Inl e \<longrightarrow>
         e = UnknownIncrementType t \<and> t \<notin> {''major'', ''minor'', ''patch''}"
    using T by (elim conjE)
  have n: "\<forall>v. Number (hd (splitDot v)) = NaN \<longrightarrow> incrementVersion v ''major'' = Inr ''NaN.0.0''"
    using T by (elim conjE)
  have s: "\<forall>v. length (splitDot v) < 3 \<longrightarrow> (\<exists>s. incrementVersion v ''patch'' = Inr (s @ ''.NaN''))"
    using T by (elim conjE)
  have r: "\<forall>s. Number s = NaN \<longleftrightarrow> trim s \<noteq> [] \<and> \<not> isStrNumericLiteral (trim s)"
    using T by (elim conjE)
  have "\<exists>e. incrementVersion ''1.x'' ''bump'' = Inl e"
    by (simp add: incrementVersion_def Let_def)
  with e have 1: "incrementVersion ''1.x'' ''bump'' = Inl (UnknownIncrementType ''bump'')"
    by blast
  have "trim (hd (splitDot ''v1.2.3'')) \<noteq> [] \<and> \<not> isStrNumericLiteral (trim (hd (splitDot ''v1.2.3'')))"
    by (simp add: evalNumber)
  then have "Number (hd (splitDot ''v1.2.3'')) = NaN"
    by (rule iffD2 [OF r [THEN spec]])
  with n have 2: "incrementVersion ''v1.2.3'' ''major'' = Inr ''NaN.0.0''"
    by blast
  have "trim (hd (splitDot ''1x.0.0'')) \<noteq> [] \<and> \<not> isStrNumericLiteral (trim (hd (splitDot ''1x.0.0'')))"
    by (simp add: evalNumber)
  then have "Number (hd (splitDot ''1x.0.0'')) = NaN"
    by (rule iffD2 [OF r [THEN spec]])
  with n have 3: "incrementVersion ''1x.0.0'' ''major'' = Inr ''NaN.0.0''"
    by blast
  have "trim (hd (splitDot ''3-SNAPSHOT'')) \<noteq> []
        \<and> \<not> isStrNumericLiteral (trim (hd (splitDot ''3-SNAPSHOT'')))"
    by (simp add: evalNumber)
  then have "Number (hd (splitDot ''3-SNAPSHOT'')) = NaN"
    by (rule iffD2 [OF r [THEN spec]])
  with n have 4: "incrementVersion ''3-SNAPSHOT'' ''major'' = Inr ''NaN.0.0''"
    by blast
  have "length (splitDot ''1.2'') < 3"
    by simp
  with s have 5: "\<exists>s. incrementVersion ''1.2'' ''patch'' = Inr (s @ ''.NaN'')"
    by blast
  show ?thesis
    by (intro conjI) (fact 1, fact 2, fact 3, fact 4, fact 5)
qed

theorem incrementVersion_malformed_counterexample:
  "incrementVersion ''1.2'' ''major'' = Inr ''2.0.0''
   \<and> incrementVersion ''1.2'' ''patch'' = Inr ''1.2.NaN''
   \<and> incrementVersion ''abc'' ''minor'' = Inr ''NaN.NaN.0''
   \<and> incrementVersion ''1'' ''patch'' = Inr ''1.undefined.NaN''"
  by (simp add: incrementVersion_def evalNumber)

text \<open>
  Claim C8, as the code has it. For every version triple \<open>(M, N, P)\<close> of naturals below
  \<open>2^53\<close>, written in decimal: the major bump is \<open>(M+1, 0, 0)\<close>, the minor bump is
  \<open>(M, N+1, 0)\<close>, the patch bump is \<open>(M, N, P+1)\<close>; and when \<open>P + 1\<close> is below \<open>2^53\<close> too,
  two patch bumps in a row give \<open>(M, N, P+2)\<close>.
\<close>

theorem incrementVersion_bumps:
  assumes "M < 2 ^ 53" and "N < 2 ^ 53" and "P < 2 ^ 53"
  shows "incrementVersion (versionOf M N P) ''major'' = Inr (versionOf (M + 1) 0 0)
       \<and> incrementVersion (versionOf M N P) ''minor'' = Inr (versionOf M (N + 1) 0)
       \<and> incrementVersion (versionOf M N P) ''patch'' = Inr (versionOf M N (P + 1))
       \<and> (P + 1 < 2 ^ 53 \<longrightarrow>
            incrementVersion (projr (incrementVersion (versionOf M N P) ''patch'')) ''patch''
            = Inr (versionOf M N (P + 2)))"
proof -
  have m: "int M < maxExact" and n: "int N < maxExact" and p: "int P < maxExact"
    using assms by (simp_all add: below_maxExact)
  have 1: "incrementVersion (versionOf M N P) ''major'' = Inr (versionOf (M + 1) 0 0)"
    using m by (rule incrementVersion_major)
  have 2: "incrementVersion (versionOf M N P) ''minor'' = Inr (versionOf M (N + 1) 0)"
    using m n by (intro incrementVersion_minor) simp_all
  have 3: "incrementVersion (versionOf M N P) ''patch'' = Inr (versionOf M N (P + 1))"
    using m n p by (intro incrementVersion_patch) simp_all
  have 4: "P + 1 < 2 ^ 53 \<longrightarrow>
            incrementVersion (projr (incrementVersion (versionOf M N P) ''patch'')) ''patch''
            = Inr (versionOf M N (P + 2))"
  proof
    assume "P + 1 < 2 ^ 53"
    then have "int (P + 1) < maxExact"
      by (rule below_maxExact)
    with m n have "incrementVersion (versionOf M N (P + 1)) ''patch''
                   = Inr (versionOf M N (P + 1 + 1))"
      by (intro incrementVersion_patch) simp_all
    with 3 show "incrementVersion (projr (incrementVersion (versionOf M N P) ''patch'')) ''patch''
            = Inr (versionOf M N (P + 2))"
      by (simp add: add.assoc)
  qed
  show ?thesis
    by (intro conjI) (fact 1, fact 2, fact 3, fact 4)
qed

theorem incrementVersion_bumps_witness:
  "incrementVersion ''1.2.3'' ''major'' = Inr ''2.0.0''
   \<and> incrementVersion ''1.2.3'' ''minor'' = Inr ''1.3.0''
   \<and> incrementVersion ''1.2.3'' ''patch'' = Inr ''1.2.4''
   \<and> incrementVersion (projr (incrementVersion ''1.2.3'' ''patch'')) ''patch'' = Inr ''1.2.5''"
proof -
  have v: "versionOf 1 2 3 = ''1.2.3''" "versionOf (1 + 1) 0 0 = ''2.0.0''"
    "versionOf 1 (2 + 1) 0 = ''1.3.0''" "versionOf 1 2 (3 + 1) = ''1.2.4''"
    "versionOf 1 2 (3 + 2) = ''1.2.5''"
    by (simp_all add: versionOf_def showNat_small digitChar_def)
  have h: "(1::nat) < 2 ^ 53" "(2::nat) < 2 ^ 53" "(3::nat) < 2 ^ 53" "(3::nat) + 1 < 2 ^ 53"
    by simp_all
  from incrementVersion_bumps [OF h(1) h(2) h(3)] h(4) show ?thesis
    unfolding v by blast
qed

theorem incrementVersion_bumps_counterexample:
  "versionOf 9007199254740992 0 0 = ''9007199254740992.0.0''
   \<and> incrementVersion ''9007199254740992.0.0'' ''major'' = Inr ''9007199254740992.0.0''
   \<and> versionOf (9007199254740992 + 1) 0 0 = ''9007199254740993.0.0''"
proof -
  have v: "versionOf 9007199254740992 0 0 = ''9007199254740992.0.0''"
    by (simp add: versionOf_def showNat_maxExact showNat_0)
  have w: "versionOf (9007199254740992 + 1) 0 0 = ''9007199254740993.0.0''"
    by (simp add: versionOf_def showNat_small showNat_big digitChar_def)
  have "incrementVersion (versionOf 9007199254740992 0 0) ''major''
        = Inr (versionOf 9007199254740992 0 0)"
    by (rule incrementVersion_major_max) (simp add: maxExact_def)
  then have i: "incrementVersion ''9007199254740992.0.0'' ''major'' = Inr ''9007199254740992.0.0''"
    unfolding v .
  show ?thesis
    by (intro conjI) (fact v, fact i, fact w)
qed

section \<open>Properties of graph construction\<close>

lemma map_update_same: "f y = f (xs ! i) \<Longrightarrow> map f (xs[i := y]) = map f xs"
  by (cases "i < length xs") (simp_all add: map_update list_update_same_conv list_update_beyond)

lemma nth_update_same: "f y = f (xs ! j) \<Longrightarrow> f (xs[j := y] ! i) = f (xs ! i)"
  by (cases "i = j"; cases "j < length xs") (simp_all add: list_update_beyond)

lemma set_setAdd [simp]: "set (setAdd xs x) = insert x (set xs)"
  by (auto simp: setAdd_def)

lemma distinct_setAdd [simp]: "distinct (setAdd xs x) = distinct xs"
  by (auto simp: setAdd_def)

lemma set_foldl_setAdd: "set (foldl setAdd acc xs) = set acc \<union> set xs"
  by (induction xs arbitrary: acc) auto

lemma set_extractDependencies: "set (extractDependencies c) = set (dependencyMatches c)"
  by (simp add: extractDependencies_def set_foldl_setAdd)

lemma map_of_mapSet: "map_of (mapSet g k v) = (map_of g)(k \<mapsto> v)"
  by (induction g k v rule: mapSet.induct) auto

lemma keys_mapSet: "map fst (mapSet g k v) = (if k \<in> fst ` set g then map fst g else map fst g @ [k])"
  by (induction g k v rule: mapSet.induct) (force split: if_splits)+

lemma set_mapSet: "set (mapSet g k v) \<subseteq> insert (k, v) (set g)"
  by (induction g k v rule: mapSet.induct) auto

lemma set_mapSet_values: "distinct (map fst g) \<Longrightarrow> set (mapSet g k v) = insert (k, v) {p \<in> set g. fst p \<noteq> k}"
  by (induction g k v rule: mapSet.induct) (force split: if_splits)+

lemma distinct_keys_mapSet: "distinct (map fst g) \<Longrightarrow> distinct (map fst (mapSet g k v))"
  by (simp add: keys_mapSet)

lemma addDependency_graph [simp]: "moduleGraph (addDependency a m dep) = moduleGraph m"
  by (simp add: addDependency_def Let_def split: option.splits)

lemma addDependency_dryRun [simp]: "dryRun (addDependency a m dep) = dryRun m"
  by (simp add: addDependency_def Let_def split: option.splits)

lemma addDependency_length [simp]: "length (heap (addDependency a m dep)) = length (heap m)"
  by (simp add: addDependency_def Let_def split: option.splits)

lemma addDependency_name [simp]: "map name (heap (addDependency a m dep)) = map name (heap m)"
  by (simp add: addDependency_def Let_def map_update_same split: option.splits)

lemma addDependency_currentVersion [simp]:
  "map currentVersion (heap (addDependency a m dep)) = map currentVersion (heap m)"
  by (simp add: addDependency_def Let_def map_update_same split: option.splits)

lemma addDependency_dependencies_other:
  "i \<noteq> a \<Longrightarrow> dependencies (heap (addDependency a m dep) ! i) = dependencies (heap m ! i)"
  by (simp add: addDependency_def Let_def nth_update_same split: option.splits)

lemma addDependency_dependencies_self:
  "a < length (heap m) \<Longrightarrow>
   dependencies (heap (addDependency a m dep) ! a) =
     (case map_of (moduleGraph m) dep of None \<Rightarrow> dependencies (heap m ! a)
      | Some d \<Rightarrow> setAdd (dependencies (heap m ! a)) d)"
  by (auto simp: addDependency_def Let_def nth_list_update split: option.splits)

lemma foldl_addDependency_graph [simp]:
  "moduleGraph (foldl (addDependency a) m deps) = moduleGraph m"
  by (induction deps arbitrary: m) auto

lemma foldl_addDependency_dryRun [simp]:
  "dryRun (foldl (addDependency a) m deps) = dryRun m"
  by (induction deps arbitrary: m) auto

lemma foldl_addDependency_length [simp]:
  "length (heap (foldl (addDependency a) m deps)) = length (heap m)"
  by (induction deps arbitrary: m) auto

lemma foldl_addDependency_name [simp]:
  "map name (heap (foldl (addDependency a) m deps)) = map name (heap m)"
  by (induction deps arbitrary: m) auto

lemma foldl_addDependency_currentVersion [simp]:
  "map currentVersion (heap (foldl (addDependency a) m deps)) = map currentVersion (heap m)"
  by (induction deps arbitrary: m) auto

lemma foldl_addDependency_dependencies_other:
  "i \<noteq> a \<Longrightarrow> dependencies (heap (foldl (addDependency a) m deps) ! i) = dependencies (heap m ! i)"
  by (induction deps arbitrary: m) (auto simp: addDependency_dependencies_other)

lemma foldl_addDependency_dependencies_self:
  "a < length (heap m) \<Longrightarrow>
   set (dependencies (heap (foldl (addDependency a) m deps) ! a)) =
     set (dependencies (heap m ! a)) \<union> {d. \<exists>dep\<in>set deps. map_of (moduleGraph m) dep = Some d}"
proof (induction deps arbitrary: m)
  case Nil
  then show ?case by simp
next
  case (Cons dep deps)
  have "set (dependencies (heap (foldl (addDependency a) (addDependency a m dep) deps) ! a)) =
        set (dependencies (heap (addDependency a m dep) ! a))
        \<union> {d. \<exists>x\<in>set deps. map_of (moduleGraph m) x = Some d}"
    using Cons.IH [of "addDependency a m dep"] Cons.prems by simp
  then show ?case
    using Cons.prems by (auto simp: addDependency_dependencies_self split: option.splits)
qed

lemma graphSound_lookup:
  "graphSound m \<Longrightarrow> map_of (moduleGraph m) k = Some d \<Longrightarrow> d < length (heap m) \<and> name (heap m ! d) = k"
  by (auto simp: graphSound_def dest: map_of_SomeD)

lemma addModule_None [simp]: "files n = None \<Longrightarrow> addModule files m n = m"
  by (simp add: addModule_def)

lemma addModule_length:
  "length (heap (addModule files m n)) = length (heap m) + (if files n = None then 0 else 1)"
  by (simp add: addModule_def Let_def split: option.splits)

lemma addModule_names:
  "map name (heap (addModule files m n)) = map name (heap m) @ (if files n = None then [] else [n])"
  by (simp add: addModule_def Let_def split: option.splits)

lemma addModule_versions:
  "map currentVersion (heap (addModule files m n))
   = map currentVersion (heap m) @ (case files n of None \<Rightarrow> [] | Some c \<Rightarrow> [extractVersion c])"
  by (simp add: addModule_def Let_def split: option.splits)

lemma addModule_graph:
  "moduleGraph (addModule files m n)
   = (if files n = None then moduleGraph m else mapSet (moduleGraph m) n (length (heap m)))"
  by (simp add: addModule_def Let_def split: option.splits)

lemma addModule_dryRun [simp]: "dryRun (addModule files m n) = dryRun m"
  by (simp add: addModule_def Let_def split: option.splits)

lemma nth_map_eq: "map f xs = map f ys @ zs \<Longrightarrow> i < length ys \<Longrightarrow> f (xs ! i) = f (ys ! i)"
  by (metis length_map nth_append nth_map length_append trans_less_add1)

lemma addModule_name_old:
  "i < length (heap m) \<Longrightarrow> name (heap (addModule files m n) ! i) = name (heap m ! i)"
  using addModule_names [of files m n] by (rule nth_map_eq)

lemma addModule_graphSound: "graphSound m \<Longrightarrow> graphSound (addModule files m n)"
proof (cases "files n")
  case None
  then show "graphSound m \<Longrightarrow> ?thesis" by simp
next
  case (Some c)
  assume gs: "graphSound m"
  let ?m' = "addModule files m n"
  have len: "length (heap ?m') = Suc (length (heap m))"
    using Some by (simp add: addModule_length)
  have "map name (heap ?m') ! length (heap m) = n"
    using Some by (simp add: addModule_names nth_append)
  then have new: "name (heap ?m' ! length (heap m)) = n"
    using len by (simp add: nth_map)
  show ?thesis
    unfolding graphSound_def
  proof (intro ballI, clarify)
    fix k d
    assume "(k, d) \<in> set (moduleGraph ?m')"
    then have "(k, d) \<in> set (mapSet (moduleGraph m) n (length (heap m)))"
      using Some by (simp add: addModule_graph)
    then have "(k, d) \<in> insert (n, length (heap m)) (set (moduleGraph m))"
      using set_mapSet [of "moduleGraph m" n "length (heap m)"] by blast
    then show "d < length (heap ?m') \<and> name (heap ?m' ! d) = k"
    proof
      assume "(k, d) = (n, length (heap m))"
      then show ?thesis using len new by simp
    next
      assume "(k, d) \<in> set (moduleGraph m)"
      then have "d < length (heap m) \<and> name (heap m ! d) = k"
        using gs by (auto simp: graphSound_def)
      then show ?thesis using len by (simp add: addModule_name_old)
    qed
  qed
qed

lemma addModule_dependencies_old:
  "i < length (heap m) \<Longrightarrow> dependencies (heap (addModule files m n) ! i) = dependencies (heap m ! i)"
  by (simp add: addModule_def Let_def foldl_addDependency_dependencies_other nth_append
           split: option.splits)

lemma addModule_dependencies_new:
  "files n = Some c \<Longrightarrow>
   set (dependencies (heap (addModule files m n) ! length (heap m))) =
     {d. \<exists>dep\<in>set (extractDependencies c).
            map_of (mapSet (moduleGraph m) n (length (heap m))) dep = Some d}"
  by (simp add: addModule_def Let_def foldl_addDependency_dependencies_self)

lemma build_Nil: "buildDependencyGraph files [] m = m"
  by (simp add: buildDependencyGraph_def)

lemma build_Cons:
  "buildDependencyGraph files (n # ns) m = buildDependencyGraph files ns (addModule files m n)"
  by (simp add: buildDependencyGraph_def)

lemma build_append:
  "buildDependencyGraph files (xs @ ys) m = buildDependencyGraph files ys (buildDependencyGraph files xs m)"
  by (simp add: buildDependencyGraph_def)

lemma build_names:
  "map name (heap (buildDependencyGraph files ns m))
   = map name (heap m) @ filter (\<lambda>n. files n \<noteq> None) ns"
  by (induction ns arbitrary: m) (auto simp: addModule_names build_Nil build_Cons)

lemma build_length: "length (heap m) \<le> length (heap (buildDependencyGraph files ns m))"
  using build_names [of files ns m] by (metis length_map length_append le_add1)

lemma build_keys:
  "fst ` set (moduleGraph (buildDependencyGraph files ns m))
   = fst ` set (moduleGraph m) \<union> {n \<in> set ns. files n \<noteq> None}"
proof (induction ns arbitrary: m)
  case Nil
  then show ?case by (simp add: build_Nil)
next
  case (Cons n ns)
  have "fst ` set (moduleGraph (addModule files m n))
        = fst ` set (moduleGraph m) \<union> (if files n = None then {} else {n})"
    using keys_mapSet [of "moduleGraph m" n "length (heap m)"]
    by (auto simp: addModule_graph simp flip: set_map split: if_splits)
  with Cons.IH [of "addModule files m n"] show ?case by (auto simp: build_Cons)
qed

lemma build_graphSound: "graphSound m \<Longrightarrow> graphSound (buildDependencyGraph files ns m)"
  by (induction ns arbitrary: m) (auto simp: addModule_graphSound build_Nil build_Cons)

lemma build_dependencies_old:
  "i < length (heap m) \<Longrightarrow>
   dependencies (heap (buildDependencyGraph files ns m) ! i) = dependencies (heap m ! i)"
proof (induction ns arbitrary: m)
  case Nil
  then show ?case by (simp add: build_Nil)
next
  case (Cons n ns)
  have "i < length (heap (addModule files m n))"
    using Cons.prems by (simp add: addModule_length)
  then show ?case
    using Cons.IH [of "addModule files m n"] Cons.prems
    by (simp add: addModule_dependencies_old build_Cons)
qed

lemma build_name_old:
  "i < length (heap m) \<Longrightarrow> name (heap (buildDependencyGraph files ns m) ! i) = name (heap m ! i)"
  using build_names [of files ns m] by (rule nth_map_eq)

lemma graphSound_new [simp]: "graphSound (newManager dry)"
  by (simp add: graphSound_def newManager_def)

lemma build_new_node:
  assumes "files F = Some c"
  shows "length (heap (buildDependencyGraph files pre m)) < length (heap (buildDependencyGraph files (pre @ F # post) m))"
    and "name (heap (buildDependencyGraph files (pre @ F # post) m) ! length (heap (buildDependencyGraph files pre m))) = F"
    and "dependencies (heap (buildDependencyGraph files (pre @ F # post) m) ! length (heap (buildDependencyGraph files pre m)))
         = dependencies (heap (addModule files (buildDependencyGraph files pre m) F) ! length (heap (buildDependencyGraph files pre m)))"
proof -
  let ?m1 = "buildDependencyGraph files pre m"
  let ?mF = "addModule files ?m1 F"
  let ?fin = "buildDependencyGraph files (pre @ F # post) m"
  have fin: "?fin = buildDependencyGraph files post ?mF"
    by (simp add: build_append build_Cons)
  have lt: "length (heap ?m1) < length (heap ?mF)"
    using assms by (simp add: addModule_length)
  then show "length (heap ?m1) < length (heap ?fin)"
    using build_length [of ?mF files post] fin by simp
  have "map name (heap ?mF) ! length (heap ?m1) = F"
    using assms by (simp add: addModule_names nth_append)
  then have "name (heap ?mF ! length (heap ?m1)) = F"
    using lt by (simp add: nth_map)
  then show "name (heap ?fin ! length (heap ?m1)) = F"
    using lt fin by (simp add: build_name_old)
  show "dependencies (heap ?fin ! length (heap ?m1)) = dependencies (heap ?mF ! length (heap ?m1))"
    using lt fin by (simp add: build_dependencies_old)
qed

lemma addModule_new_dependency:
  assumes f: "files F = Some c" and gs: "graphSound m"
    and d: "d \<in> set (dependencies (heap (addModule files m F) ! length (heap m)))"
  shows "d \<le> length (heap m) \<and> name (heap (addModule files m F) ! d) \<in> set (extractDependencies c)
         \<and> (name (heap (addModule files m F) ! d) = F
             \<or> name (heap (addModule files m F) ! d) \<in> fst ` set (moduleGraph m))"
proof -
  from d obtain dep where dep: "dep \<in> set (extractDependencies c)"
    and look: "map_of (mapSet (moduleGraph m) F (length (heap m))) dep = Some d"
    using addModule_dependencies_new [where files=files and n=F and c=c and m=m, OF f] by auto
  have new: "name (heap (addModule files m F) ! length (heap m)) = F"
    using build_new_node(2) [where files=files and F=F and c=c and pre="[]" and m=m and post="[]", OF f]
    by (simp add: build_Nil build_Cons)
  show ?thesis
  proof (cases "dep = F")
    case True
    then have "d = length (heap m)"
      using look by (simp add: map_of_mapSet)
    then show ?thesis using new dep True by simp
  next
    case False
    then have l: "map_of (moduleGraph m) dep = Some d"
      using look by (simp add: map_of_mapSet)
    then have "d < length (heap m) \<and> name (heap m ! d) = dep"
      using gs by (rule graphSound_lookup [rotated])
    moreover have "dep \<in> fst ` set (moduleGraph m)"
      using l by (metis map_of_SomeD fst_conv image_eqI)
    ultimately show ?thesis
      using dep by (simp add: addModule_name_old)
  qed
qed

lemma addModule_declared_dependency:
  assumes f: "files F = Some c" and gs: "graphSound m"
    and T: "T \<in> set (extractDependencies c)" and ins: "T = F \<or> T \<in> fst ` set (moduleGraph m)"
  shows "\<exists>d\<in>set (dependencies (heap (addModule files m F) ! length (heap m))).
           name (heap (addModule files m F) ! d) = T"
proof -
  have new: "name (heap (addModule files m F) ! length (heap m)) = F"
    using build_new_node(2) [where files=files and F=F and c=c and pre="[]" and m=m and post="[]", OF f]
    by (simp add: build_Nil build_Cons)
  show ?thesis
  proof (cases "T = F")
    case True
    then have "map_of (mapSet (moduleGraph m) F (length (heap m))) T = Some (length (heap m))"
      by (simp add: map_of_mapSet)
    then have "length (heap m) \<in> set (dependencies (heap (addModule files m F) ! length (heap m)))"
      using T addModule_dependencies_new [where files=files and n=F and c=c and m=m, OF f] by auto
    then show ?thesis using new True by blast
  next
    case False
    with ins obtain d where l: "map_of (moduleGraph m) T = Some d"
      by (metis weak_map_of_SomeI map_of_eq_None_iff not_None_eq)
    then have "map_of (mapSet (moduleGraph m) F (length (heap m))) T = Some d"
      using False by (simp add: map_of_mapSet)
    then have in_deps: "d \<in> set (dependencies (heap (addModule files m F) ! length (heap m)))"
      using T addModule_dependencies_new [where files=files and n=F and c=c and m=m, OF f] by auto
    have "d < length (heap m) \<and> name (heap m ! d) = T"
      using gs l by (rule graphSound_lookup)
    then have "name (heap (addModule files m F) ! d) = T"
      by (simp add: addModule_name_old)
    with in_deps show ?thesis by blast
  qed
qed

text \<open>
  Claim C2, as the code has it. Adding a module whose name is already a key of the graph
  does not fail: \<open>Map.set\<close> overwrites the entry, which keeps its position and now points
  at the newly created node; the other entries are untouched; the earlier node stays in
  the heap under the same name (where edges made before still point at it).
\<close>

theorem addModule_overwrites_duplicate:
  assumes "files moduleName = Some buildContent"
    and "map_of (moduleGraph m) moduleName = Some earlier"
    and "graphSound m"
  shows "map fst (moduleGraph (addModule files m moduleName)) = map fst (moduleGraph m)
       \<and> map_of (moduleGraph (addModule files m moduleName)) moduleName = Some (length (heap m))
       \<and> earlier \<noteq> length (heap m)
       \<and> (\<forall>k. k \<noteq> moduleName \<longrightarrow>
             map_of (moduleGraph (addModule files m moduleName)) k = map_of (moduleGraph m) k)
       \<and> length (heap (addModule files m moduleName)) = length (heap m) + 1
       \<and> name (heap (addModule files m moduleName) ! length (heap m)) = moduleName
       \<and> currentVersion (heap (addModule files m moduleName) ! length (heap m))
           = extractVersion buildContent
       \<and> name (heap (addModule files m moduleName) ! earlier) = moduleName"
proof -
  let ?m' = "addModule files m moduleName"
  have g: "moduleGraph ?m' = mapSet (moduleGraph m) moduleName (length (heap m))"
    using assms(1) by (simp add: addModule_graph)
  have key: "moduleName \<in> fst ` set (moduleGraph m)"
    using assms(2) by (metis map_of_SomeD fst_conv image_eqI)
  have 1: "map fst (moduleGraph ?m') = map fst (moduleGraph m)"
    using key by (simp add: g keys_mapSet)
  have 2: "map_of (moduleGraph ?m') moduleName = Some (length (heap m))"
    by (simp add: g map_of_mapSet)
  have e: "earlier < length (heap m) \<and> name (heap m ! earlier) = moduleName"
    using assms(3) assms(2) by (rule graphSound_lookup)
  then have 3: "earlier \<noteq> length (heap m)"
    by simp
  have 4: "\<forall>k. k \<noteq> moduleName \<longrightarrow> map_of (moduleGraph ?m') k = map_of (moduleGraph m) k"
    by (simp add: g map_of_mapSet)
  have 5: "length (heap ?m') = length (heap m) + 1"
    using assms(1) by (simp add: addModule_length)
  have 6: "name (heap ?m' ! length (heap m)) = moduleName"
    using build_new_node(2) [where files=files and F=moduleName and c=buildContent
        and pre="[]" and m=m and post="[]", OF assms(1)]
    by (simp add: build_Nil build_Cons)
  have "map currentVersion (heap ?m') ! length (heap m) = extractVersion buildContent"
    using assms(1) by (simp add: addModule_versions nth_append)
  then have 7: "currentVersion (heap ?m' ! length (heap m)) = extractVersion buildContent"
    using 5 by (simp add: nth_map)
  have 8: "name (heap ?m' ! earlier) = moduleName"
    using e by (simp add: addModule_name_old)
  show ?thesis
    by (intro conjI) (fact 1, fact 2, fact 3, fact 4, fact 5, fact 6, fact 7, fact 8)
qed

lemma demo_core_app:
  "buildDependencyGraph demoFiles [''core'', ''app''] (newManager False) =
     \<lparr>dryRun = False,
      heap = [\<lparr>name = ''core'', currentVersion = ''1.0.0'', newVersion = None, changeType = NONE,
               dependencies = [], dependents = [1]\<rparr>,
              \<lparr>name = ''app'', currentVersion = ''2.1.3'', newVersion = None, changeType = NONE,
               dependencies = [0], dependents = []\<rparr>],
      moduleGraph = [(''core'', 0), (''app'', 1)], visitedModules = [], moduleOrder = []\<rparr>"
  by code_simp

theorem addModule_overwrites_duplicate_witness:
  "map fst (moduleGraph (addModule demoFiles
       (buildDependencyGraph demoFiles [''core'', ''app''] (newManager False)) ''core''))
     = [''core'', ''app'']
   \<and> map_of (moduleGraph (addModule demoFiles
       (buildDependencyGraph demoFiles [''core'', ''app''] (newManager False)) ''core'')) ''core''
     = Some 2
   \<and> name (heap (addModule demoFiles
       (buildDependencyGraph demoFiles [''core'', ''app''] (newManager False)) ''core'') ! 0)
     = ''core''"
proof -
  let ?m = "buildDependencyGraph demoFiles [''core'', ''app''] (newManager False)"
  have f: "demoFiles ''core'' = Some (gradleFile ''1.0.0'' [])"
    by (simp add: demoFiles_def)
  have l: "map_of (moduleGraph ?m) ''core'' = Some 0"
    by (simp add: demo_core_app)
  have s: "graphSound ?m"
    by (rule build_graphSound) simp
  note T = addModule_overwrites_duplicate [where files=demoFiles and moduleName="''core''"
      and m="?m", OF f l s]
  have h: "map fst (moduleGraph ?m) = [''core'', ''app'']" "length (heap ?m) = 2"
    by (simp_all add: demo_core_app)
  from T show ?thesis
    unfolding h by blast
qed

theorem duplicate_module_counterexample:
  "moduleGraph (buildDependencyGraph demoFiles [''core'', ''app'', ''core''] (newManager False))
     = [(''core'', 2), (''app'', 1)]
   \<and> map name (heap (buildDependencyGraph demoFiles [''core'', ''app'', ''core''] (newManager False)))
     = [''core'', ''app'', ''core'']
   \<and> map dependencies (heap (buildDependencyGraph demoFiles [''core'', ''app'', ''core''] (newManager False)))
     = [[], [0], []]
   \<and> \<not> isl (execute demoFiles [''core'', ''app'', ''core''] demoHistory True)"
  by code_simp

lemma demo_app_core:
  "buildDependencyGraph demoFiles [''app'', ''core''] (newManager False) =
     \<lparr>dryRun = False,
      heap = [\<lparr>name = ''app'', currentVersion = ''2.1.3'', newVersion = None, changeType = NONE,
               dependencies = [], dependents = []\<rparr>,
              \<lparr>name = ''core'', currentVersion = ''1.0.0'', newVersion = None, changeType = NONE,
               dependencies = [], dependents = []\<rparr>],
      moduleGraph = [(''app'', 0), (''core'', 1)], visitedModules = [], moduleOrder = []\<rparr>"
  by code_simp

text \<open>
  Claim C9. Let \<open>F\<close> be a module of the listing whose build file exists, \<open>before\<close> the manager
  when the loop reaches \<open>F\<close>, and \<open>final\<close> the manager at the end. The node made for \<open>F\<close> has
  an edge only to a node that was in the graph at that moment, under a name \<open>F\<close> declares:
  \<open>F\<close> itself, or a module listed (with a build file) before \<open>F\<close>; no later step adds an edge
  from it. A declared dependency that is neither \<open>F\<close> nor listed before \<open>F\<close> gets no edge,
  and one that is gets its edge. So the edges depend on the order of the listing: \<open>app\<close>
  listed after \<open>core\<close> has its edge to \<open>core\<close>, \<open>app\<close> listed before \<open>core\<close> has none.
\<close>

theorem buildDependencyGraph_edges_follow_listing_order:
  fixes files :: "string \<Rightarrow> string option" and pre post :: "string list"
    and F :: string and dry :: bool
  defines "before \<equiv> buildDependencyGraph files pre (newManager dry)"
    and "final \<equiv> buildDependencyGraph files (pre @ F # post) (newManager dry)"
  assumes fF: "files F = Some c"
  shows "length (heap before) < length (heap final)
       \<and> name (heap final ! length (heap before)) = F
       \<and> (\<forall>d\<in>set (dependencies (heap final ! length (heap before))).
             d \<le> length (heap before)
             \<and> name (heap final ! d) \<in> set (extractDependencies c)
             \<and> (name (heap final ! d) = F
                \<or> (name (heap final ! d) \<in> set pre \<and> files (name (heap final ! d)) \<noteq> None)))
       \<and> (\<forall>T\<in>set (extractDependencies c).
             T \<noteq> F \<and> \<not> (T \<in> set pre \<and> files T \<noteq> None) \<longrightarrow>
             (\<forall>d\<in>set (dependencies (heap final ! length (heap before))).
                name (heap final ! d) \<noteq> T))
       \<and> (\<forall>T\<in>set (extractDependencies c).
             T = F \<or> (T \<in> set pre \<and> files T \<noteq> None) \<longrightarrow>
             (\<exists>d\<in>set (dependencies (heap final ! length (heap before))).
                name (heap final ! d) = T))
       \<and> dependencies (heap (buildDependencyGraph demoFiles [''core'', ''app''] (newManager False)) ! 1)
           = [0]
       \<and> dependencies (heap (buildDependencyGraph demoFiles [''app'', ''core''] (newManager False)) ! 0)
           = []"
proof -
  let ?mF = "addModule files before F"
  let ?a = "length (heap before)"
  have gs: "graphSound before"
    unfolding before_def by (rule build_graphSound) simp
  have keys: "fst ` set (moduleGraph before) = {n \<in> set pre. files n \<noteq> None}"
    unfolding before_def using build_keys [of files pre "newManager dry"]
    by (simp add: newManager_def)
  have fin: "final = buildDependencyGraph files post ?mF"
    unfolding final_def before_def by (simp add: build_append build_Cons)
  have lt: "?a < length (heap ?mF)"
    using fF by (simp add: addModule_length)
  have nm: "d \<le> ?a \<Longrightarrow> name (heap final ! d) = name (heap ?mF ! d)" for d
    using lt fin by (simp add: build_name_old)
  have 1: "?a < length (heap final)"
    unfolding final_def before_def using fF by (rule build_new_node(1))
  have 2: "name (heap final ! ?a) = F"
    unfolding final_def before_def using fF by (rule build_new_node(2))
  have deps: "dependencies (heap final ! ?a) = dependencies (heap ?mF ! ?a)"
    unfolding final_def before_def using fF by (rule build_new_node(3))
  have 3: "\<forall>d\<in>set (dependencies (heap final ! ?a)).
             d \<le> ?a \<and> name (heap final ! d) \<in> set (extractDependencies c)
             \<and> (name (heap final ! d) = F
                \<or> (name (heap final ! d) \<in> set pre \<and> files (name (heap final ! d)) \<noteq> None))"
  proof
    fix d
    assume "d \<in> set (dependencies (heap final ! ?a))"
    then have "d \<in> set (dependencies (heap ?mF ! ?a))"
      by (simp add: deps)
    from addModule_new_dependency [where files=files and F=F and c=c and m=before and d=d,
        OF fF gs this]
    have "d \<le> ?a \<and> name (heap ?mF ! d) \<in> set (extractDependencies c)
          \<and> (name (heap ?mF ! d) = F \<or> name (heap ?mF ! d) \<in> {n \<in> set pre. files n \<noteq> None})"
      by (simp add: keys)
    then show "d \<le> ?a \<and> name (heap final ! d) \<in> set (extractDependencies c)
             \<and> (name (heap final ! d) = F
                \<or> (name (heap final ! d) \<in> set pre \<and> files (name (heap final ! d)) \<noteq> None))"
      by (simp add: nm)
  qed
  have 4: "\<forall>T\<in>set (extractDependencies c).
             T \<noteq> F \<and> \<not> (T \<in> set pre \<and> files T \<noteq> None) \<longrightarrow>
             (\<forall>d\<in>set (dependencies (heap final ! ?a)). name (heap final ! d) \<noteq> T)"
    using 3 by blast
  have 5: "\<forall>T\<in>set (extractDependencies c).
             T = F \<or> (T \<in> set pre \<and> files T \<noteq> None) \<longrightarrow>
             (\<exists>d\<in>set (dependencies (heap final ! ?a)). name (heap final ! d) = T)"
  proof (intro ballI impI)
    fix T
    assume T: "T \<in> set (extractDependencies c)"
      and "T = F \<or> (T \<in> set pre \<and> files T \<noteq> None)"
    then have "T = F \<or> T \<in> fst ` set (moduleGraph before)"
      by (simp add: keys)
    from addModule_declared_dependency [where files=files and F=F and c=c and m=before and T=T,
        OF fF gs T this]
    obtain d where d: "d \<in> set (dependencies (heap ?mF ! ?a))" and n: "name (heap ?mF ! d) = T"
      by blast
    have "d \<le> ?a"
      using addModule_new_dependency [where files=files and F=F and c=c and m=before and d=d,
        OF fF gs d] by simp
    then have "name (heap final ! d) = T"
      using n by (simp add: nm)
    with d show "\<exists>d\<in>set (dependencies (heap final ! ?a)). name (heap final ! d) = T"
      unfolding deps by blast
  qed
  have 6: "dependencies (heap (buildDependencyGraph demoFiles [''core'', ''app''] (newManager False)) ! 1)
           = [0]"
    by (simp add: demo_core_app)
  have 7: "dependencies (heap (buildDependencyGraph demoFiles [''app'', ''core''] (newManager False)) ! 0)
           = []"
    by (simp add: demo_app_core)
  show ?thesis
    by (intro conjI) (fact 1, fact 2, fact 3, fact 4, fact 5, fact 6, fact 7)
qed

lemma demo_core_app_lib:
  "buildDependencyGraph demoFiles ([''core''] @ ''app'' # [''lib'']) (newManager False) =
     \<lparr>dryRun = False,
      heap = [\<lparr>name = ''core'', currentVersion = ''1.0.0'', newVersion = None, changeType = NONE,
               dependencies = [], dependents = [1]\<rparr>,
              \<lparr>name = ''app'', currentVersion = ''2.1.3'', newVersion = None, changeType = NONE,
               dependencies = [0], dependents = [2]\<rparr>,
              \<lparr>name = ''lib'', currentVersion = ''0.4.0'', newVersion = None, changeType = NONE,
               dependencies = [1], dependents = []\<rparr>],
      moduleGraph = [(''core'', 0), (''app'', 1), (''lib'', 2)],
      visitedModules = [], moduleOrder = []\<rparr>"
  by code_simp

theorem buildDependencyGraph_edges_follow_listing_order_witness:
  "name (heap (buildDependencyGraph demoFiles ([''core''] @ ''app'' # [''lib'']) (newManager False)) ! 1)
     = ''app''
   \<and> (\<exists>d\<in>set (dependencies
          (heap (buildDependencyGraph demoFiles ([''core''] @ ''app'' # [''lib'']) (newManager False)) ! 1)).
         name (heap (buildDependencyGraph demoFiles ([''core''] @ ''app'' # [''lib'']) (newManager False)) ! d)
           = ''core'')
   \<and> \<not> (\<exists>d\<in>set (dependencies
          (heap (buildDependencyGraph demoFiles ([] @ ''app'' # [''core'']) (newManager False)) ! 0)).
         name (heap (buildDependencyGraph demoFiles ([] @ ''app'' # [''core'']) (newManager False)) ! d)
           = ''core'')"
proof -
  have f: "demoFiles ''app'' = Some (gradleFile ''2.1.3'' [''core''])"
    by (simp add: demoFiles_def)
  have dep: "''core'' \<in> set (extractDependencies (gradleFile ''2.1.3'' [''core'']))"
    by code_simp
  have b1: "length (heap (buildDependencyGraph demoFiles [''core''] (newManager False))) = 1"
    by code_simp
  have b0: "length (heap (buildDependencyGraph demoFiles [] (newManager False))) = 0"
    by code_simp
  have c1: "''core'' \<in> set [''core''] \<and> demoFiles ''core'' \<noteq> None"
    by (simp add: demoFiles_def)
  have c0: "''core'' \<noteq> ''app'' \<and> \<not> (''core'' \<in> set [] \<and> demoFiles ''core'' \<noteq> None)"
    by simp
  note A = buildDependencyGraph_edges_follow_listing_order
      [where files=demoFiles and F="''app''" and pre="[''core'']" and post="[''lib'']"
         and dry=False, OF f, unfolded b1]
  note B = buildDependencyGraph_edges_follow_listing_order
      [where files=demoFiles and F="''app''" and pre="[]" and post="[''core'']"
         and dry=False, OF f, unfolded b0]
  have 1: "name (heap (buildDependencyGraph demoFiles ([''core''] @ ''app'' # [''lib''])
             (newManager False)) ! 1) = ''app''"
    using A by (elim conjE)
  have A5: "\<forall>T\<in>set (extractDependencies (gradleFile ''2.1.3'' [''core''])).
             T = ''app'' \<or> (T \<in> set [''core''] \<and> demoFiles T \<noteq> None) \<longrightarrow>
             (\<exists>d\<in>set (dependencies (heap (buildDependencyGraph demoFiles
                   ([''core''] @ ''app'' # [''lib'']) (newManager False)) ! 1)).
                name (heap (buildDependencyGraph demoFiles
                   ([''core''] @ ''app'' # [''lib'']) (newManager False)) ! d) = T)"
    using A by (elim conjE)
  have 2: "\<exists>d\<in>set (dependencies
          (heap (buildDependencyGraph demoFiles ([''core''] @ ''app'' # [''lib'']) (newManager False)) ! 1)).
         name (heap (buildDependencyGraph demoFiles ([''core''] @ ''app'' # [''lib'']) (newManager False)) ! d)
           = ''core''"
    by (rule A5 [THEN bspec, OF dep, THEN mp, OF disjI2, OF c1])
  have B4: "\<forall>T\<in>set (extractDependencies (gradleFile ''2.1.3'' [''core''])).
             T \<noteq> ''app'' \<and> \<not> (T \<in> set [] \<and> demoFiles T \<noteq> None) \<longrightarrow>
             (\<forall>d\<in>set (dependencies (heap (buildDependencyGraph demoFiles
                   ([] @ ''app'' # [''core'']) (newManager False)) ! 0)).
                name (heap (buildDependencyGraph demoFiles
                   ([] @ ''app'' # [''core'']) (newManager False)) ! d) \<noteq> T)"
    using B by (elim conjE)
  have 3: "\<not> (\<exists>d\<in>set (dependencies
          (heap (buildDependencyGraph demoFiles ([] @ ''app'' # [''core'']) (newManager False)) ! 0)).
         name (heap (buildDependencyGraph demoFiles ([] @ ''app'' # [''core'']) (newManager False)) ! d)
           = ''core'')"
    using B4 [THEN bspec, OF dep, THEN mp, OF c0] by (simp only: bex_simps not_not)
  show ?thesis
    by (intro conjI) (fact 1, fact 2, fact 3)
qed

text \<open>
  What the loop of \<open>buildDependencyGraph\<close> maintains. Whatever the listing, the
  \<open>dependents\<close> sets mirror the \<open>dependencies\<close> sets. When no name is listed twice, every
  node of the heap is the value of its own key, so the result is a module graph in the
  sense of \<open>wfGraph\<close>.
\<close>

lemma addDependency_dependents_set:
  "a < length (heap m) \<Longrightarrow> i < length (heap m) \<Longrightarrow>
   set (dependents (heap (addDependency a m dep) ! i)) =
     set (dependents (heap m ! i)) \<union> (if map_of (moduleGraph m) dep = Some i then {a} else {})"
  by (auto simp: addDependency_def Let_def nth_list_update split: option.splits)

lemma addDependency_dependencies_set:
  "a < length (heap m) \<Longrightarrow> i < length (heap m) \<Longrightarrow>
   set (dependencies (heap (addDependency a m dep) ! i)) =
     set (dependencies (heap m ! i)) \<union> (if i = a then {d. map_of (moduleGraph m) dep = Some d} else {})"
  by (auto simp: addDependency_dependencies_self addDependency_dependencies_other split: option.splits)

lemma addDependency_mirrored:
  assumes a: "a < length (heap m)"
    and range: "\<forall>k d. map_of (moduleGraph m) k = Some d \<longrightarrow> d < length (heap m)"
    and mir: "mirrored (heap m)"
  shows "mirrored (heap (addDependency a m dep))"
  unfolding mirrored_def
proof (intro conjI allI impI ballI)
  fix x d
  assume x: "x < length (heap (addDependency a m dep))"
    and d: "d \<in> set (dependencies (heap (addDependency a m dep) ! x))"
  have x': "x < length (heap m)" using x by simp
  from d have "d \<in> set (dependencies (heap m ! x)) \<or> map_of (moduleGraph m) dep = Some d"
    by (simp add: addDependency_dependencies_set [OF a x'] split: if_splits)
  then have "d < length (heap m)"
    using mir range x' by (auto simp: mirrored_def)
  then show "d < length (heap (addDependency a m dep))" by simp
next
  fix d x
  assume d: "d < length (heap (addDependency a m dep))"
  have d': "d < length (heap m)" using d by simp
  show "x \<in> set (dependents (heap (addDependency a m dep) ! d))
        \<longleftrightarrow> x < length (heap (addDependency a m dep))
            \<and> d \<in> set (dependencies (heap (addDependency a m dep) ! x))"
  proof (cases "x < length (heap m)")
    case True
    have old: "x \<in> set (dependents (heap m ! d)) \<longleftrightarrow> d \<in> set (dependencies (heap m ! x))"
      using mir d' True by (simp add: mirrored_def)
    show ?thesis
      using True old a
      by (auto simp: addDependency_dependents_set [OF a d'] addDependency_dependencies_set [OF a True])
  next
    case False
    have "x \<notin> set (dependents (heap m ! d))"
      using mir d' False by (simp add: mirrored_def)
    then show ?thesis
      using False a by (auto simp: addDependency_dependents_set [OF a d'])
  qed
qed

lemma foldl_addDependency_mirrored:
  "a < length (heap m) \<Longrightarrow>
   \<forall>k d. map_of (moduleGraph m) k = Some d \<longrightarrow> d < length (heap m) \<Longrightarrow>
   mirrored (heap m) \<Longrightarrow> mirrored (heap (foldl (addDependency a) m deps))"
proof (induction deps arbitrary: m)
  case Nil
  then show ?case by simp
next
  case (Cons dep deps)
  have "mirrored (heap (addDependency a m dep))"
    using Cons.prems by (rule addDependency_mirrored)
  then show ?case
    using Cons.IH [of "addDependency a m dep"] Cons.prems by simp
qed

lemma mirrored_snoc:
  assumes "mirrored h" "dependencies x = []" "dependents x = []"
  shows "mirrored (h @ [x])"
  unfolding mirrored_def
proof (intro conjI allI impI ballI)
  fix a d
  assume A: "a < length (h @ [x])" "d \<in> set (dependencies ((h @ [x]) ! a))"
  have a: "a < length h"
    using A assms(2) by (cases "a < length h") (auto simp: nth_append)
  then have "d \<in> set (dependencies (h ! a))"
    using A(2) by (simp add: nth_append)
  then have "d < length h"
    using assms(1) a by (simp add: mirrored_def)
  then show "d < length (h @ [x])" by simp
next
  fix d a
  assume d: "d < length (h @ [x])"
  show "a \<in> set (dependents ((h @ [x]) ! d))
        \<longleftrightarrow> a < length (h @ [x]) \<and> d \<in> set (dependencies ((h @ [x]) ! a))"
  proof (cases "d < length h")
    case True
    then show ?thesis
      using assms by (cases "a < length h") (auto simp: mirrored_def nth_append)
  next
    case False
    then have e: "d = length h" using d by simp
    have "\<not> (a < length h \<and> length h \<in> set (dependencies (h ! a)))"
      using assms(1) by (auto simp: mirrored_def)
    then show ?thesis
      using assms(2,3) e by (cases "a < length h") (auto simp: nth_append)
  qed
qed

lemma addModule_mirrored:
  assumes gs: "graphSound m" and mir: "mirrored (heap m)"
  shows "mirrored (heap (addModule files m n))"
proof (cases "files n")
  case None
  then show ?thesis using mir by simp
next
  case (Some c)
  let ?node = "\<lparr>name = n, currentVersion = extractVersion c, newVersion = None,
                 changeType = NONE, dependencies = [], dependents = []\<rparr>"
  let ?m1 = "m\<lparr>heap := heap m @ [?node], moduleGraph := mapSet (moduleGraph m) n (length (heap m))\<rparr>"
  have eq: "addModule files m n = foldl (addDependency (length (heap m))) ?m1 (extractDependencies c)"
    using Some by (simp add: addModule_def Let_def)
  have a: "length (heap m) < length (heap ?m1)" by simp
  have range: "\<forall>k d. map_of (moduleGraph ?m1) k = Some d \<longrightarrow> d < length (heap ?m1)"
    using graphSound_lookup [OF gs] by (auto simp: map_of_mapSet less_Suc_eq)
  have "mirrored (heap ?m1)"
    using mirrored_snoc [OF mir, of ?node] by simp
  then show ?thesis
    unfolding eq using a range by (intro foldl_addDependency_mirrored)
qed

lemma build_mirrored:
  "graphSound m \<Longrightarrow> mirrored (heap m) \<Longrightarrow> mirrored (heap (buildDependencyGraph files ns m))"
  by (induction ns arbitrary: m)
     (simp_all add: build_Nil build_Cons addModule_mirrored addModule_graphSound)

lemma mapSet_fresh: "k \<notin> fst ` set g \<Longrightarrow> mapSet g k v = g @ [(k, v)]"
  by (induction g k v rule: mapSet.induct) auto

lemma addModule_keys:
  "fst ` set (moduleGraph (addModule files m n))
   = fst ` set (moduleGraph m) \<union> (if files n = None then {} else {n})"
  using build_keys [of files "[n]" m] by (auto simp: build_Cons build_Nil)

lemma build_values_full:
  "distinct ns \<Longrightarrow> set ns \<inter> fst ` set (moduleGraph m) = {} \<Longrightarrow>
   graphValues m = [0..<length (heap m)] \<Longrightarrow>
   graphValues (buildDependencyGraph files ns m)
   = [0..<length (heap (buildDependencyGraph files ns m))]"
proof (induction ns arbitrary: m)
  case Nil
  then show ?case by (simp add: build_Nil)
next
  case (Cons n ns)
  let ?m' = "addModule files m n"
  have fresh: "n \<notin> fst ` set (moduleGraph m)"
    using Cons.prems(2) by auto
  have 1: "distinct ns" using Cons.prems(1) by simp
  have 2: "set ns \<inter> fst ` set (moduleGraph ?m') = {}"
    using Cons.prems(1,2) by (auto simp: addModule_keys split: if_splits)
  have 3: "graphValues ?m' = [0..<length (heap ?m')]"
  proof (cases "files n")
    case None
    then show ?thesis using Cons.prems(3) by simp
  next
    case (Some c)
    then show ?thesis
      using Cons.prems(3) fresh
      by (simp add: graphValues_def addModule_graph addModule_length mapSet_fresh)
  qed
  show ?case
    using Cons.IH [OF 1 2 3] by (simp add: build_Cons)
qed

lemma build_distinct_keys:
  "distinct (map fst (moduleGraph m)) \<Longrightarrow>
   distinct (map fst (moduleGraph (buildDependencyGraph files ns m)))"
  by (induction ns arbitrary: m)
     (simp_all add: build_Nil build_Cons addModule_graph distinct_keys_mapSet)

lemma mirrored_new [simp]: "mirrored (heap (newManager dry))"
  by (simp add: mirrored_def newManager_def)

lemma built_wellformed:
  assumes "distinct ns"
  shows "wfGraph (buildDependencyGraph files ns (newManager dry))"
    and "dependentsMirror (buildDependencyGraph files ns (newManager dry))"
proof -
  let ?b = "buildDependencyGraph files ns (newManager dry)"
  have gs: "graphSound ?b"
    by (simp add: build_graphSound)
  have mir: "mirrored (heap ?b)"
    by (simp add: build_mirrored)
  have full: "graphValues ?b = [0..<length (heap ?b)]"
    using assms by (intro build_values_full) (simp_all add: newManager_def graphValues_def)
  have keys: "distinct (map fst (moduleGraph ?b))"
    by (intro build_distinct_keys) (simp add: newManager_def)
  show "wfGraph ?b"
    unfolding wfGraph_def using gs keys mir by (auto simp: full mirrored_def)
  show "dependentsMirror ?b"
    unfolding dependentsMirror_def using mir by (auto simp: full mirrored_def)
qed

section \<open>Properties of cycle detection\<close>

lemma isWalk_Cons: "isWalk h (a # w) = (a < length h \<and> (w = [] \<or> (hd w \<in> set (dependencies (h ! a)) \<and> isWalk h w)))"
  by (cases w) auto

lemma isWalk_snoc:
  "isWalk h (w @ [n]) = (n < length h \<and> (w = [] \<or> (isWalk h w \<and> n \<in> set (dependencies (h ! last w)))))"
proof (induction w rule: isWalk.induct)
  case (1 h)
  then show ?case by simp
next
  case (2 h a)
  then show ?case by auto
next
  case (3 h a b w)
  then show ?case by auto
qed

lemma isWalk_suffix: "isWalk h (u @ v) \<Longrightarrow> v \<noteq> [] \<Longrightarrow> isWalk h v"
proof (induction u)
  case Nil
  then show ?case by simp
next
  case (Cons a u)
  then show ?case by (cases "u @ v") (auto simp: isWalk_Cons)
qed

lemma namesOf_simps [simp]:
  "namesOf h [] = []" "namesOf h (a # w) = name (h ! a) # namesOf h w"
  "namesOf h (u @ v) = namesOf h u @ namesOf h v"
  by (simp_all add: namesOf_def)

lemma detectCycle_not_True:
  "detectCycle h n path \<noteq> Inr True"
  "detectCycleDeps h ds path \<noteq> Inr True"
proof (induction h n path and h ds path rule: detectCycle_detectCycleDeps.induct)
  case (1 h n path)
  then show ?case by (simp add: detectCycle.simps)
next
  case (2 h path)
  then show ?case by simp
next
  case (3 h d ds path)
  then show ?case by (auto split: sum.splits bool.splits)
qed

lemma detectCycleDeps_Inl:
  "detectCycleDeps h ds path = Inl e \<Longrightarrow> \<exists>d\<in>set ds. detectCycle h d path = Inl e"
  by (induction ds) (auto split: sum.splits bool.splits)

lemma detectCycleDeps_throws:
  "d \<in> set ds \<Longrightarrow> isl (detectCycle h d path) \<Longrightarrow> isl (detectCycleDeps h ds path)"
proof (induction ds)
  case Nil
  then show ?case by simp
next
  case (Cons x ds)
  then show ?case
    using detectCycle_not_True(1) [of h x path]
    by (cases "detectCycle h x path") (auto split: bool.splits)
qed

lemma detectAll_Inl:
  "detectAll h ns = Inl e \<Longrightarrow> \<exists>n\<in>set ns. detectCycle h n [] = Inl e"
  by (induction ns) (auto split: sum.splits)

lemma detectAll_throws:
  "n \<in> set ns \<Longrightarrow> isl (detectCycle h n []) \<Longrightarrow> isl (detectAll h ns)"
  by (induction ns) (auto split: sum.splits)

lemma detectCycle_complete:
  "isWalk h (n # w) \<Longrightarrow> distinct path \<Longrightarrow> \<not> distinct (path @ namesOf h (n # w))
   \<Longrightarrow> isl (detectCycle h n path)"
proof (induction w arbitrary: n path)
  case Nil
  then show ?case by (auto simp: detectCycle.simps)
next
  case (Cons d w)
  from Cons.prems(1) have n: "n < length h" and d: "d \<in> set (dependencies (h ! n))"
    and wd: "isWalk h (d # w)"
    by auto
  show ?case
  proof (cases "name (h ! n) \<in> set path")
    case True
    with n show ?thesis by (simp add: detectCycle.simps)
  next
    case False
    with Cons.prems(2) have "distinct (path @ [name (h ! n)])"
      by simp
    moreover have "\<not> distinct ((path @ [name (h ! n)]) @ namesOf h (d # w))"
      using Cons.prems(3) by simp
    ultimately have "isl (detectCycle h d (path @ [name (h ! n)]))"
      using Cons.IH [OF wd] by blast
    then have "isl (detectCycleDeps h (dependencies (h ! n)) (path @ [name (h ! n)]))"
      using d by (rule detectCycleDeps_throws [rotated])
    with n False show ?thesis by (simp add: detectCycle.simps)
  qed
qed

lemma cycle_suffix:
  assumes walk: "isWalk h (anc @ [n])" and rep: "name (h ! n) \<in> set (namesOf h anc)"
  defines "c \<equiv> dropWhile (\<lambda>a. name (h ! a) \<noteq> name (h ! n)) (anc @ [n])"
  shows "namesOf h c = dropWhile (\<lambda>x. x \<noteq> name (h ! n)) (namesOf h anc @ [name (h ! n)])"
    and "isWalk h c" and "2 \<le> length c" and "name (h ! hd c) = name (h ! last c)"
proof -
  let ?P = "\<lambda>a. name (h ! a) \<noteq> name (h ! n)"
  from rep obtain a where a: "a \<in> set anc" "\<not> ?P a"
    by (auto simp: namesOf_def)
  then have c: "c = dropWhile ?P anc @ [n]"
    unfolding c_def by (simp add: dropWhile_append1)
  have ne: "dropWhile ?P anc \<noteq> []"
    using a by (auto simp: dropWhile_eq_Nil_conv)
  have "dropWhile (\<lambda>x. x \<noteq> name (h ! n)) (map (\<lambda>a. name (h ! a)) (anc @ [n]))
        = map (\<lambda>a. name (h ! a)) (dropWhile ((\<lambda>x. x \<noteq> name (h ! n)) \<circ> (\<lambda>a. name (h ! a))) (anc @ [n]))"
    by (rule dropWhile_map)
  then show "namesOf h c = dropWhile (\<lambda>x. x \<noteq> name (h ! n)) (namesOf h anc @ [name (h ! n)])"
    by (simp add: c_def namesOf_def comp_def)
  have "anc @ [n] = takeWhile ?P (anc @ [n]) @ c"
    unfolding c_def by simp
  then show "isWalk h c"
    using walk c by (metis isWalk_suffix snoc_eq_iff_butlast)
  show "2 \<le> length c"
    using ne c by (cases "dropWhile ?P anc") auto
  have "\<not> ?P (hd (dropWhile ?P anc))"
    using ne by (rule hd_dropWhile)
  then show "name (h ! hd c) = name (h ! last c)"
    using ne c by simp
qed

lemma detectCycle_sound:
  "detectCycle h n path = Inl e \<Longrightarrow> path = namesOf h anc \<Longrightarrow>
   anc = [] \<or> (isWalk h anc \<and> n \<in> set (dependencies (h ! last anc))) \<Longrightarrow>
   \<exists>w c. isWalk h (anc @ n # w) \<and> \<not> distinct (namesOf h (anc @ n # w))
         \<and> e = CyclicDependency (namesOf h c) \<and> isWalk h c \<and> 2 \<le> length c
         \<and> name (h ! hd c) = name (h ! last c)"
  and detectCycleDeps_sound:
  "detectCycleDeps h ds path = Inl e \<Longrightarrow> path = namesOf h anc \<Longrightarrow>
   isWalk h anc \<Longrightarrow> set ds \<subseteq> set (dependencies (h ! last anc)) \<Longrightarrow>
   \<exists>d w c. d \<in> set ds \<and> isWalk h (anc @ d # w) \<and> \<not> distinct (namesOf h (anc @ d # w))
         \<and> e = CyclicDependency (namesOf h c) \<and> isWalk h c \<and> 2 \<le> length c
         \<and> name (h ! hd c) = name (h ! last c)"
proof (induction h n path and h ds path arbitrary: e anc and e anc
       rule: detectCycle_detectCycleDeps.induct)
  case (1 h n path)
  from "1.prems"(1) have n: "n < length h"
    by (auto simp: detectCycle.simps split: if_splits)
  have walk: "isWalk h (anc @ [n])"
    using n "1.prems"(3) by (auto simp: isWalk_snoc)
  show ?case
  proof (cases "name (h ! n) \<in> set path")
    case True
    define c where "c = dropWhile (\<lambda>a. name (h ! a) \<noteq> name (h ! n)) (anc @ [n])"
    have rep: "name (h ! n) \<in> set (namesOf h anc)"
      using True "1.prems"(2) by simp
    have e: "e = CyclicDependency (dropWhile (\<lambda>x. x \<noteq> name (h ! n)) (path @ [name (h ! n)]))"
      using "1.prems"(1) n True by (simp add: detectCycle.simps)
    have "e = CyclicDependency (namesOf h c)"
      unfolding c_def using cycle_suffix(1) [OF walk rep] e "1.prems"(2) by simp
    moreover have "isWalk h c" "2 \<le> length c" "name (h ! hd c) = name (h ! last c)"
      unfolding c_def using cycle_suffix [OF walk rep] by blast+
    moreover have "\<not> distinct (namesOf h (anc @ n # []))"
      using rep by simp
    ultimately show ?thesis
      using walk by blast
  next
    case False
    then have run: "detectCycleDeps h (dependencies (h ! n)) (path @ [name (h ! n)]) = Inl e"
      using "1.prems"(1) n by (simp add: detectCycle.simps)
    have p: "path @ [name (h ! n)] = namesOf h (anc @ [n])"
      using "1.prems"(2) by simp
    have l: "set (dependencies (h ! n)) \<subseteq> set (dependencies (h ! last (anc @ [n])))"
      by simp
    from "1.IH" [OF _ False run p walk l] n
    obtain d w c where "isWalk h ((anc @ [n]) @ d # w)"
      "\<not> distinct (namesOf h ((anc @ [n]) @ d # w))"
      "e = CyclicDependency (namesOf h c)" "isWalk h c" "2 \<le> length c"
      "name (h ! hd c) = name (h ! last c)"
      by blast
    then have "isWalk h (anc @ n # (d # w)) \<and> \<not> distinct (namesOf h (anc @ n # (d # w)))
         \<and> e = CyclicDependency (namesOf h c) \<and> isWalk h c \<and> 2 \<le> length c
         \<and> name (h ! hd c) = name (h ! last c)"
      by simp
    then show ?thesis by blast
  qed
next
  case (2 h path)
  then show ?case by simp
next
  case (3 h d ds path)
  show ?case
  proof (cases "detectCycle h d path")
    case (Inl e')
    then have e: "e' = e"
      using "3.prems"(1) by simp
    have "anc = [] \<or> (isWalk h anc \<and> d \<in> set (dependencies (h ! last anc)))"
      using "3.prems"(3,4) by simp
    from "3.IH"(1) [OF Inl [unfolded e] "3.prems"(2) this]
    show ?thesis by (metis list.set_intros(1))
  next
    case (Inr b)
    then have b: "b = False"
      using detectCycle_not_True(1) [of h d path] by (cases b) simp_all
    then have run: "detectCycleDeps h ds path = Inl e"
      using "3.prems"(1) Inr by simp
    have "set ds \<subseteq> set (dependencies (h ! last anc))"
      using "3.prems"(4) by simp
    from "3.IH"(2) [OF Inr [unfolded b] _ run "3.prems"(2,3) this]
    show ?thesis by (metis list.set_intros(2))
  qed
qed

lemma detect_iff_hasCycle: "isl (detectCyclicDependencies m) \<longleftrightarrow> hasCycle m"
proof
  assume "isl (detectCyclicDependencies m)"
  then obtain e where "detectAll (heap m) (graphValues m) = Inl e"
    by (auto simp: detectCyclicDependencies_def isl_def)
  then obtain r where r: "r \<in> set (graphValues m)" and "detectCycle (heap m) r [] = Inl e"
    using detectAll_Inl by blast
  from detectCycle_sound [OF this(2), of "[]"]
  obtain w where "isWalk (heap m) (r # w)" "\<not> distinct (namesOf (heap m) (r # w))"
    by auto
  then show "hasCycle m"
    unfolding hasCycle_def using r by (intro exI [of _ "r # w"]) simp
next
  assume "hasCycle m"
  then obtain w where w: "isWalk (heap m) w" "hd w \<in> set (graphValues m)"
    "\<not> distinct (namesOf (heap m) w)"
    by (auto simp: hasCycle_def)
  then obtain r w' where rw: "w = r # w'"
    by (cases w) auto
  have "isl (detectCycle (heap m) r [])"
    using w rw by (intro detectCycle_complete [of _ _ w']) simp_all
  then show "isl (detectCyclicDependencies m)"
    unfolding detectCyclicDependencies_def using w(2) rw by (intro detectAll_throws [of r]) simp_all
qed

lemma graphValues_inj:
  assumes "graphSound m" "distinct (map fst (moduleGraph m))"
  shows "inj_on (\<lambda>a. name (heap m ! a)) (set (graphValues m))"
proof (rule inj_onI)
  fix a b
  assume a: "a \<in> set (graphValues m)" and b: "b \<in> set (graphValues m)"
    and eq: "name (heap m ! a) = name (heap m ! b)"
  from a obtain ka where ka: "(ka, a) \<in> set (moduleGraph m)"
    by (auto simp: graphValues_def)
  from b obtain kb where kb: "(kb, b) \<in> set (moduleGraph m)"
    by (auto simp: graphValues_def)
  have "name (heap m ! a) = ka" "name (heap m ! b) = kb"
    using assms(1) ka kb by (auto simp: graphSound_def)
  then have "ka = kb"
    using eq by simp
  moreover have "map_of (moduleGraph m) ka = Some a"
    using assms(2) ka by (rule map_of_is_SomeI)
  moreover have "map_of (moduleGraph m) kb = Some b"
    using assms(2) kb by (rule map_of_is_SomeI)
  ultimately show "a = b" by simp
qed

lemma isWalk_prefix: "isWalk h (u @ v) \<Longrightarrow> u \<noteq> [] \<Longrightarrow> isWalk h u"
proof (induction u)
  case Nil
  then show ?case by simp
next
  case (Cons a u)
  then show ?case by (cases u) (auto simp: isWalk_Cons)
qed

lemma walk_in_graph:
  "isWalk h w \<Longrightarrow> \<forall>a\<in>G. set (dependencies (h ! a)) \<subseteq> G \<Longrightarrow> hd w \<in> G \<Longrightarrow> set w \<subseteq> G"
proof (induction h w rule: isWalk.induct)
  case (1 h)
  then show ?case by simp
next
  case (2 h a)
  then show ?case by simp
next
  case (3 h a b w)
  have "b \<in> G"
    using 3(2,3,4) by auto
  moreover have "isWalk h (b # w)"
    using 3(2) by simp
  ultimately have "set (b # w) \<subseteq> G"
    using 3(1,3) by simp
  then show ?case using 3(4) by simp
qed

lemma hasCycle_iff_reaches:
  assumes wf: "wfGraph m"
  shows "hasCycle m \<longleftrightarrow> (\<exists>a\<in>set (graphValues m). reaches (heap m) a a)"
proof
  assume "hasCycle m"
  then obtain w where w: "isWalk (heap m) w" "hd w \<in> set (graphValues m)"
    "\<not> distinct (namesOf (heap m) w)"
    by (auto simp: hasCycle_def)
  have cl: "\<forall>a\<in>set (graphValues m). set (dependencies (heap m ! a)) \<subseteq> set (graphValues m)"
    using wf by (simp add: wfGraph_def)
  have sub: "set w \<subseteq> set (graphValues m)"
    using w(1) cl w(2) by (rule walk_in_graph)
  have "inj_on (\<lambda>a. name (heap m ! a)) (set (graphValues m))"
    using wf by (intro graphValues_inj) (simp_all add: wfGraph_def)
  then have "inj_on (\<lambda>a. name (heap m ! a)) (set w)"
    using sub by (rule inj_on_subset)
  then have "\<not> distinct w"
    using w(3) by (auto simp: namesOf_def distinct_map)
  then obtain xs ys zs y where d: "w = xs @ [y] @ ys @ [y] @ zs"
    using not_distinct_decomp by blast
  have "isWalk (heap m) (xs @ ((y # ys @ [y]) @ zs))"
    using w(1) d by simp
  then have "isWalk (heap m) ((y # ys @ [y]) @ zs)"
    by (rule isWalk_suffix) simp
  then have "isWalk (heap m) (y # ys @ [y])"
    by (rule isWalk_prefix) simp
  then have "reaches (heap m) y y"
    unfolding reaches_def by blast
  moreover have "y \<in> set (graphValues m)"
    using sub d by auto
  ultimately show "\<exists>a\<in>set (graphValues m). reaches (heap m) a a"
    by blast
next
  assume "\<exists>a\<in>set (graphValues m). reaches (heap m) a a"
  then obtain a w where a: "a \<in> set (graphValues m)" and w: "isWalk (heap m) (a # w @ [a])"
    by (auto simp: reaches_def)
  have "\<not> distinct (namesOf (heap m) (a # w @ [a]))"
    by simp
  then show "hasCycle m"
    unfolding hasCycle_def using a w by (intro exI [of _ "a # w @ [a]"]) simp
qed

text \<open>
  Claim C6. \<open>detectCyclicDependencies\<close> throws exactly when the graph as built has a
  directed dependency cycle (a walk from a module of the graph that comes back to a
  module it has passed). When it throws, the reported path is the list of names of a walk
  along dependency edges, of at least two names, whose first and last name are the same.
  In a module graph (unique keys, edges inside the graph) a walk repeats a name exactly
  when some module of the graph reaches itself along at least one edge.
\<close>

theorem detectCyclicDependencies_fails_iff_cycle:
  "(isl (detectCyclicDependencies m) \<longleftrightarrow> hasCycle m)
   \<and> (\<forall>e. detectCyclicDependencies m = Inl e \<longrightarrow>
         (\<exists>c. e = CyclicDependency (namesOf (heap m) c) \<and> isWalk (heap m) c
              \<and> 2 \<le> length (namesOf (heap m) c)
              \<and> hd (namesOf (heap m) c) = last (namesOf (heap m) c)))
   \<and> (wfGraph m \<longrightarrow> (hasCycle m \<longleftrightarrow> (\<exists>a\<in>set (graphValues m). reaches (heap m) a a)))"
proof (intro conjI allI impI)
  show "isl (detectCyclicDependencies m) \<longleftrightarrow> hasCycle m"
    by (rule detect_iff_hasCycle)
next
  fix e
  assume "detectCyclicDependencies m = Inl e"
  then obtain r where "detectCycle (heap m) r [] = Inl e"
    unfolding detectCyclicDependencies_def using detectAll_Inl by blast
  from detectCycle_sound [OF this, of "[]"]
  obtain c where c: "e = CyclicDependency (namesOf (heap m) c)" "isWalk (heap m) c"
    "2 \<le> length c" "name (heap m ! hd c) = name (heap m ! last c)"
    by auto
  then have "c \<noteq> []"
    by auto
  then have "hd (namesOf (heap m) c) = last (namesOf (heap m) c)"
    using c(4) by (simp add: namesOf_def hd_map last_map)
  then show "\<exists>c. e = CyclicDependency (namesOf (heap m) c) \<and> isWalk (heap m) c
              \<and> 2 \<le> length (namesOf (heap m) c)
              \<and> hd (namesOf (heap m) c) = last (namesOf (heap m) c)"
    using c by (intro exI [of _ c]) (simp add: namesOf_def)
next
  assume "wfGraph m"
  then show "hasCycle m \<longleftrightarrow> (\<exists>a\<in>set (graphValues m). reaches (heap m) a a)"
    by (rule hasCycle_iff_reaches)
qed

section \<open>Properties of the topological order\<close>

lemma reaches_self_False:
  assumes "graphOK h G" "g \<in> G" "reaches h g g"
  shows False
proof -
  from assms(3) obtain w where w: "isWalk h (g # w @ [g])"
    by (auto simp: reaches_def)
  have "\<forall>w. isWalk h w \<and> hd w \<in> G \<longrightarrow> distinct (namesOf h w)"
    using assms(1) by (simp add: graphOK_def)
  from this [rule_format, of "g # w @ [g]"] have "distinct (namesOf h (g # w @ [g]))"
    using w assms(2) by simp
  then show False by simp
qed

lemma reaches_step:
  assumes "reaches h g n" "d \<in> set (dependencies (h ! n))" "d < length h"
  shows "reaches h g d"
proof -
  from assms(1) obtain w where w: "isWalk h (g # w @ [n])"
    by (auto simp: reaches_def)
  have "isWalk h ((g # w @ [n]) @ [d])"
    using w assms(2,3) by (subst isWalk_snoc) simp
  then have "isWalk h (g # (w @ [n]) @ [d])"
    by simp
  then show ?thesis
    unfolding reaches_def by blast
qed

lemma reaches_edge: "n < length h \<Longrightarrow> d \<in> set (dependencies (h ! n)) \<Longrightarrow> d < length h \<Longrightarrow> reaches h n d"
  unfolding reaches_def by (rule exI [of _ "[]"]) simp

lemma depsBefore_snoc:
  assumes "depsBefore h ord" "set (dependencies (h ! n)) \<subseteq> set ord"
  shows "depsBefore h (ord @ [n])"
  unfolding depsBefore_def
proof (intro allI impI ballI)
  fix i d
  assume i: "i < length (ord @ [n])" and d: "d \<in> set (dependencies (h ! ((ord @ [n]) ! i)))"
  show "\<exists>j<i. (ord @ [n]) ! j = d"
  proof (cases "i < length ord")
    case True
    then have "d \<in> set (dependencies (h ! (ord ! i)))"
      using d by (simp add: nth_append)
    then obtain j where j: "j < i" "ord ! j = d"
      using assms(1) True by (auto simp: depsBefore_def)
    then have "(ord @ [n]) ! j = d"
      using True by (simp add: nth_append)
    with j(1) show ?thesis by blast
  next
    case False
    then have il: "i = length ord"
      using i by simp
    then have "d \<in> set ord"
      using d assms(2) by auto
    then obtain j where j: "j < length ord" "ord ! j = d"
      by (auto simp: in_set_conv_nth)
    then have "(ord @ [n]) ! j = d"
      by (simp add: nth_append)
    with j(1) il show ?thesis by blast
  qed
qed

lemma visit_correct:
  "graphOK h G \<Longrightarrow> n \<in> G \<Longrightarrow> topoInv h G s \<Longrightarrow> \<forall>g\<in>grey h G s. reaches h g n \<Longrightarrow>
   topoInv h G (visit h n s) \<and> n \<in> set (snd (visit h n s)) \<and> grey h G (visit h n s) = grey h G s
   \<and> set (snd s) \<subseteq> set (snd (visit h n s)) \<and> set (fst s) \<subseteq> set (fst (visit h n s))"
  and visitDeps_correct:
  "graphOK h G \<Longrightarrow> set ds \<subseteq> G \<Longrightarrow> topoInv h G s \<Longrightarrow> \<forall>g\<in>grey h G s. \<forall>d\<in>set ds. reaches h g d \<Longrightarrow>
   topoInv h G (visitDeps h ds s) \<and> set ds \<subseteq> set (snd (visitDeps h ds s))
   \<and> grey h G (visitDeps h ds s) = grey h G s
   \<and> set (snd s) \<subseteq> set (snd (visitDeps h ds s)) \<and> set (fst s) \<subseteq> set (fst (visitDeps h ds s))"
proof (induction h n s and h ds s rule: visit_visitDeps.induct)
  case (1 h n visited order)
  note ok = "1.prems"(1) and nG = "1.prems"(2) and inv = "1.prems"(3) and gr = "1.prems"(4)
  have n: "n < length h"
    using ok nG by (simp add: graphOK_def)
  show ?case
  proof (cases "name (h ! n) \<in> set visited")
    case True
    have "n \<in> set order"
    proof (rule ccontr)
      assume "n \<notin> set order"
      then have "n \<in> grey h G (visited, order)"
        using nG True by (simp add: grey_def)
      then have "reaches h n n"
        using gr by blast
      then show False
        using ok nG by (rule reaches_self_False [rotated 2])
    qed
    then show ?thesis
      using True n inv by (simp add: visit.simps)
  next
    case False
    let ?s1 = "(visited @ [name (h ! n)], order)"
    let ?deps = "dependencies (h ! n)"
    let ?s2 = "visitDeps h ?deps ?s1"
    have res: "visit h n (visited, order) = (fst ?s2, snd ?s2 @ [n])"
      using n False by (simp add: visit.simps split: prod.splits)
    have nO: "n \<notin> set order"
      using inv False by (auto simp: topoInv_def)
    have depsG: "set ?deps \<subseteq> G"
      using ok nG by (simp add: graphOK_def)
    have inv1: "topoInv h G ?s1"
      using inv by (auto simp: topoInv_def)
    have inj: "g \<in> G \<Longrightarrow> name (h ! g) = name (h ! n) \<Longrightarrow> g = n" for g
      using ok nG by (auto simp: graphOK_def inj_on_def)
    have grey1: "grey h G ?s1 = insert n (grey h G (visited, order))"
      using nG nO inj by (auto simp: grey_def)
    have reach1: "\<forall>g\<in>grey h G ?s1. \<forall>d\<in>set ?deps. reaches h g d"
    proof (intro ballI)
      fix g d
      assume g: "g \<in> grey h G ?s1" and d: "d \<in> set ?deps"
      have dl: "d < length h"
        using d depsG ok by (auto simp: graphOK_def)
      show "reaches h g d"
      proof (cases "g = n")
        case True
        then show ?thesis using n d dl by (simp add: reaches_edge)
      next
        case False
        then have "reaches h g n"
          using g gr grey1 by auto
        then show ?thesis using d dl by (rule reaches_step)
      qed
    qed
    from "1.IH" [OF _ False ok depsG inv1 reach1] n
    have inv2: "topoInv h G ?s2" and in2: "set ?deps \<subseteq> set (snd ?s2)"
      and grey2: "grey h G ?s2 = grey h G ?s1"
      and ord2: "set (snd ?s1) \<subseteq> set (snd ?s2)" and vis2: "set (fst ?s1) \<subseteq> set (fst ?s2)"
      by blast+
    have "n \<in> grey h G ?s2"
      using grey1 grey2 by simp
    then have n2: "n \<notin> set (snd ?s2)" and nv2: "name (h ! n) \<in> set (fst ?s2)"
      by (auto simp: grey_def)
    have invr: "topoInv h G (fst ?s2, snd ?s2 @ [n])"
      using inv2 n2 nv2 nG in2 by (auto simp: topoInv_def depsBefore_snoc)
    have "grey h G (fst ?s2, snd ?s2 @ [n]) = grey h G ?s2 - {n}"
      by (auto simp: grey_def)
    also have "\<dots> = grey h G (visited, order)"
      using grey1 grey2 nG False by (auto simp: grey_def)
    finally have greyr: "grey h G (fst ?s2, snd ?s2 @ [n]) = grey h G (visited, order)" .
    show ?thesis
      unfolding res using invr greyr ord2 vis2 by auto
  qed
next
  case (2 h s)
  then show ?case by simp
next
  case (3 h d ds s)
  note ok = "3.prems"(1) and dsG = "3.prems"(2) and inv = "3.prems"(3) and gr = "3.prems"(4)
  let ?s1 = "visit h d s"
  have dG: "d \<in> G" and dsG': "set ds \<subseteq> G"
    using dsG by simp_all
  have "\<forall>g\<in>grey h G s. reaches h g d"
    using gr by simp
  from "3.IH"(1) [OF ok dG inv this]
  have inv1: "topoInv h G ?s1" and d1: "d \<in> set (snd ?s1)" and grey1: "grey h G ?s1 = grey h G s"
    and ord1: "set (snd s) \<subseteq> set (snd ?s1)" and vis1: "set (fst s) \<subseteq> set (fst ?s1)"
    by blast+
  have "\<forall>g\<in>grey h G ?s1. \<forall>x\<in>set ds. reaches h g x"
    using gr grey1 by simp
  from "3.IH"(2) [OF ok dsG' inv1 this]
  have inv2: "topoInv h G (visitDeps h ds ?s1)" and in2: "set ds \<subseteq> set (snd (visitDeps h ds ?s1))"
    and grey2: "grey h G (visitDeps h ds ?s1) = grey h G ?s1"
    and ord2: "set (snd ?s1) \<subseteq> set (snd (visitDeps h ds ?s1))"
    and vis2: "set (fst ?s1) \<subseteq> set (fst (visitDeps h ds ?s1))"
    by blast+
  show ?case
    using inv2 in2 grey2 grey1 ord2 ord1 vis2 vis1 d1 by auto
qed

lemma visitAll_correct:
  "graphOK h G \<Longrightarrow> set rs \<subseteq> G \<Longrightarrow> topoInv h G s \<Longrightarrow> grey h G s = {} \<Longrightarrow>
   topoInv h G (visitAll h rs s) \<and> grey h G (visitAll h rs s) = {}
   \<and> set rs \<subseteq> set (snd (visitAll h rs s)) \<and> set (snd s) \<subseteq> set (snd (visitAll h rs s))"
proof (induction rs arbitrary: s)
  case Nil
  then show ?case by simp
next
  case (Cons r rs)
  let ?s1 = "if name (h ! r) \<in> set (fst s) then s else visit h r s"
  have rG: "r \<in> G" and rsG: "set rs \<subseteq> G"
    using Cons.prems(2) by simp_all
  have step: "topoInv h G ?s1 \<and> r \<in> set (snd ?s1) \<and> grey h G ?s1 = {}
              \<and> set (snd s) \<subseteq> set (snd ?s1)"
  proof (cases "name (h ! r) \<in> set (fst s)")
    case True
    have "r \<in> set (snd s)"
    proof (rule ccontr)
      assume "r \<notin> set (snd s)"
      then have "r \<in> grey h G s"
        using rG True by (simp add: grey_def)
      then show False
        using Cons.prems(4) by simp
    qed
    then show ?thesis
      using True Cons.prems(3,4) by simp
  next
    case False
    have "\<forall>g\<in>grey h G s. reaches h g r"
      using Cons.prems(4) by simp
    from visit_correct [OF Cons.prems(1) rG Cons.prems(3) this] False
    show ?thesis
      using Cons.prems(4) by simp
  qed
  then have s1: "topoInv h G ?s1" "r \<in> set (snd ?s1)" "grey h G ?s1 = {}"
    "set (snd s) \<subseteq> set (snd ?s1)"
    by blast+
  from Cons.IH [OF Cons.prems(1) rsG s1(1) s1(3)]
  have "topoInv h G (visitAll h rs ?s1)" "grey h G (visitAll h rs ?s1) = {}"
    "set rs \<subseteq> set (snd (visitAll h rs ?s1))" "set (snd ?s1) \<subseteq> set (snd (visitAll h rs ?s1))"
    by blast+
  then show ?case
    using s1(2) s1(4) by auto
qed

lemma graphOK_wfGraph:
  assumes "wfGraph m" "\<not> hasCycle m"
  shows "graphOK (heap m) (set (graphValues m))"
proof -
  have gs: "graphSound m" and dk: "distinct (map fst (moduleGraph m))"
    and cl: "\<forall>a\<in>set (graphValues m). set (dependencies (heap m ! a)) \<subseteq> set (graphValues m)"
    using assms(1) by (simp_all add: wfGraph_def)
  have 1: "\<forall>a\<in>set (graphValues m). a < length (heap m)"
    using gs by (auto simp: graphSound_def graphValues_def)
  have 2: "inj_on (\<lambda>a. name (heap m ! a)) (set (graphValues m))"
    using gs dk by (rule graphValues_inj)
  have 3: "\<forall>w. isWalk (heap m) w \<and> hd w \<in> set (graphValues m) \<longrightarrow> distinct (namesOf (heap m) w)"
    using assms(2) by (auto simp: hasCycle_def)
  show ?thesis
    unfolding graphOK_def using 1 2 cl 3 by blast
qed

lemma topologicalSort_heap [simp]: "heap (topologicalSort m) = heap m"
  by (simp add: topologicalSort_def split: prod.splits)

lemma topologicalSort_graph [simp]: "moduleGraph (topologicalSort m) = moduleGraph m"
  by (simp add: topologicalSort_def split: prod.splits)

lemma topologicalSort_order:
  "moduleOrder (topologicalSort m) = snd (visitAll (heap m) (graphValues m) ([], []))"
  by (simp add: topologicalSort_def split: prod.splits)

lemma topologicalSort_sorted:
  assumes "wfGraph m" "\<not> hasCycle m"
  shows "distinct (moduleOrder (topologicalSort m))"
    and "set (moduleOrder (topologicalSort m)) = set (graphValues m)"
    and "depsBefore (heap m) (moduleOrder (topologicalSort m))"
proof -
  let ?h = "heap m" and ?G = "set (graphValues m)"
  have ok: "graphOK ?h ?G"
    using assms by (rule graphOK_wfGraph)
  have inv0: "topoInv ?h ?G ([], [])"
    by (simp add: topoInv_def depsBefore_def)
  have g0: "grey ?h ?G ([], []) = {}"
    by (simp add: grey_def)
  from visitAll_correct [OF ok subset_refl inv0 g0]
  have inv: "topoInv ?h ?G (visitAll ?h (graphValues m) ([], []))"
    and all: "?G \<subseteq> set (snd (visitAll ?h (graphValues m) ([], [])))"
    by blast+
  show "distinct (moduleOrder (topologicalSort m))"
    using inv by (simp add: topologicalSort_order topoInv_def)
  show "set (moduleOrder (topologicalSort m)) = set (graphValues m)"
    using inv all by (auto simp: topologicalSort_order topoInv_def)
  show "depsBefore (heap m) (moduleOrder (topologicalSort m))"
    using inv by (simp add: topologicalSort_order topoInv_def)
qed

text \<open>
  Claim C7. For every acyclic module graph, \<open>topologicalSort\<close> leaves in \<open>moduleOrder\<close>
  every module of the graph exactly once (and leaves the heap alone), and every dependency
  of a module stands at an earlier position than the module.
\<close>

theorem topologicalSort_dependencies_first:
  assumes "wfGraph m" and "\<not> hasCycle m"
  shows "distinct (moduleOrder (topologicalSort m))
       \<and> set (moduleOrder (topologicalSort m)) = set (graphValues m)
       \<and> heap (topologicalSort m) = heap m
       \<and> (\<forall>i<length (moduleOrder (topologicalSort m)).
            \<forall>d\<in>set (dependencies (heap m ! (moduleOrder (topologicalSort m) ! i))).
              \<exists>j<i. moduleOrder (topologicalSort m) ! j = d)"
  using topologicalSort_sorted [OF assms] by (simp add: depsBefore_def)

section \<open>Properties of the calculation\<close>

lemma incrementVersion_bump:
  "t \<in> {''major'', ''minor'', ''patch''} \<Longrightarrow> incrementVersion v t = Inr (bump v t)"
  by (auto simp: bump_def incrementVersion_def Let_def)

lemma updateDependents_foldl:
  "updateDependents h a ct = foldl (bumpDependent ct) h (dependents (h ! a))"
  by (simp add: updateDependents_def bumpDependent_def [abs_def])

lemma bumpDependent_length [simp]: "length (bumpDependent ct h d) = length h"
  by (simp add: bumpDependent_def)

lemma bumpDependent_frame:
  "newVersion (bumpDependent ct h d ! i) = newVersion (h ! i)"
  "currentVersion (bumpDependent ct h d ! i) = currentVersion (h ! i)"
  "dependents (bumpDependent ct h d ! i) = dependents (h ! i)"
  "dependencies (bumpDependent ct h d ! i) = dependencies (h ! i)"
  "name (bumpDependent ct h d ! i) = name (h ! i)"
  by (simp_all add: bumpDependent_def nth_update_same)

lemma bumpDependent_changeType:
  "changeType (bumpDependent ct h d ! i) =
     (if i = d \<and> d < length h \<and> (changeType (h ! d) = NONE \<or> changeType (h ! d) = PATCH)
      then ct else changeType (h ! i))"
  by (cases "d < length h") (auto simp: bumpDependent_def list_update_beyond)

lemma foldl_bumpDependent_length [simp]: "length (foldl (bumpDependent ct) h ds) = length h"
  by (induction ds arbitrary: h) auto

lemma foldl_bumpDependent_frame:
  "newVersion (foldl (bumpDependent ct) h ds ! i) = newVersion (h ! i)"
  "currentVersion (foldl (bumpDependent ct) h ds ! i) = currentVersion (h ! i)"
  "dependents (foldl (bumpDependent ct) h ds ! i) = dependents (h ! i)"
  "dependencies (foldl (bumpDependent ct) h ds ! i) = dependencies (h ! i)"
  "name (foldl (bumpDependent ct) h ds ! i) = name (h ! i)"
  by (induction ds arbitrary: h) (simp_all add: bumpDependent_frame)

lemma foldl_bumpDependent_changeType:
  "changeType (foldl (bumpDependent MINOR) h ds ! i) =
     (if i \<in> set ds \<and> i < length h \<and> (changeType (h ! i) = NONE \<or> changeType (h ! i) = PATCH)
      then MINOR else changeType (h ! i))"
proof (induction ds arbitrary: h)
  case Nil
  then show ?case by simp
next
  case (Cons d ds)
  show ?case
    by (auto simp: Cons.IH bumpDependent_changeType)
qed

lemma setNewVersion_length [simp]: "length (setNewVersion h a v) = length h"
  by (simp add: setNewVersion_def)

lemma setNewVersion_frame:
  "changeType (setNewVersion h a v ! i) = changeType (h ! i)"
  "currentVersion (setNewVersion h a v ! i) = currentVersion (h ! i)"
  "dependents (setNewVersion h a v ! i) = dependents (h ! i)"
  "dependencies (setNewVersion h a v ! i) = dependencies (h ! i)"
  "name (setNewVersion h a v ! i) = name (h ! i)"
  by (simp_all add: setNewVersion_def nth_update_same)

lemma setNewVersion_newVersion:
  "newVersion (setNewVersion h a v ! i) = (if i = a \<and> a < length h then Some v else newVersion (h ! i))"
  by (cases "a < length h") (auto simp: setNewVersion_def list_update_beyond)

lemma calculateNode_calculated: "calculateNode h a = Inr (calculated h a)"
  by (simp add: calculateNode_def calculated_def incrementVersion_bump split: changeType.splits)

lemma calculateLoop_foldl: "calculateLoop h as = Inr (foldl calculated h as)"
  by (induction as arbitrary: h) (simp_all add: calculateNode_calculated)

lemma calculated_length [simp]: "length (calculated h a) = length h"
  by (simp add: calculated_def updateDependents_foldl split: changeType.splits)

lemma calculated_frame:
  "currentVersion (calculated h a ! i) = currentVersion (h ! i)"
  "dependents (calculated h a ! i) = dependents (h ! i)"
  "dependencies (calculated h a ! i) = dependencies (h ! i)"
  "name (calculated h a ! i) = name (h ! i)"
  by (simp_all add: calculated_def updateDependents_foldl foldl_bumpDependent_frame
        setNewVersion_frame split: changeType.splits)

lemma calculated_newVersion_other:
  "i \<noteq> a \<Longrightarrow> newVersion (calculated h a ! i) = newVersion (h ! i)"
  by (simp add: calculated_def updateDependents_foldl foldl_bumpDependent_frame
        setNewVersion_newVersion split: changeType.splits)

lemma calculated_newVersion_self:
  "a < length h \<Longrightarrow>
   newVersion (calculated h a ! a) =
     Some (case changeType (h ! a) of
             MAJOR \<Rightarrow> bump (currentVersion (h ! a)) ''major''
           | MINOR \<Rightarrow> bump (currentVersion (h ! a)) ''minor''
           | PATCH \<Rightarrow> bump (currentVersion (h ! a)) ''patch''
           | NONE \<Rightarrow> if list_ex (\<lambda>dep. changeType (h ! dep) = MAJOR) (dependencies (h ! a))
                     then bump (currentVersion (h ! a)) ''minor'' else currentVersion (h ! a))"
  by (simp add: calculated_def updateDependents_foldl foldl_bumpDependent_frame
        setNewVersion_newVersion split: changeType.splits)

lemma calculated_changeType:
  "changeType (calculated h a ! i) =
     (if changeType (h ! a) = MAJOR \<and> i \<in> set (dependents (h ! a)) \<and> i < length h
         \<and> (changeType (h ! i) = NONE \<or> changeType (h ! i) = PATCH)
      then MINOR else changeType (h ! i))"
  by (auto simp: calculated_def updateDependents_foldl foldl_bumpDependent_changeType
        foldl_bumpDependent_frame setNewVersion_frame split: changeType.splits)

lemma loop_length [simp]: "length (foldl calculated h as) = length h"
  by (induction as arbitrary: h) auto

lemma loop_frame:
  "currentVersion (foldl calculated h as ! i) = currentVersion (h ! i)"
  "dependents (foldl calculated h as ! i) = dependents (h ! i)"
  "dependencies (foldl calculated h as ! i) = dependencies (h ! i)"
  "name (foldl calculated h as ! i) = name (h ! i)"
  by (induction as arbitrary: h) (simp_all add: calculated_frame)

lemma loop_newVersion_other:
  "i \<notin> set as \<Longrightarrow> newVersion (foldl calculated h as ! i) = newVersion (h ! i)"
  by (induction as arbitrary: h) (simp_all add: calculated_newVersion_other)

lemma calculated_changeType_steady:
  "changeType (h ! i) = MAJOR \<or> changeType (h ! i) = MINOR \<Longrightarrow>
   changeType (calculated h a ! i) = changeType (h ! i)"
  by (auto simp: calculated_changeType)

lemma loop_changeType_steady:
  "changeType (h ! i) = MAJOR \<or> changeType (h ! i) = MINOR \<Longrightarrow>
   changeType (foldl calculated h as ! i) = changeType (h ! i)"
proof (induction as arbitrary: h)
  case Nil
  then show ?case by simp
next
  case (Cons a as)
  have "changeType (calculated h a ! i) = changeType (h ! i)"
    using Cons.prems by (rule calculated_changeType_steady)
  then show ?case
    using Cons.IH [of "calculated h a"] Cons.prems by simp
qed

lemma loop_changeType_major_iff:
  "changeType (foldl calculated h as ! i) = MAJOR \<longleftrightarrow> changeType (h ! i) = MAJOR"
proof (induction as arbitrary: h)
  case Nil
  then show ?case by simp
next
  case (Cons a as)
  have "changeType (calculated h a ! i) = MAJOR \<longleftrightarrow> changeType (h ! i) = MAJOR"
    by (auto simp: calculated_changeType)
  then show ?case
    using Cons.IH [of "calculated h a"] by simp
qed

lemma direct_dependent_bumped:
  assumes dist: "distinct (xs @ a # ys @ b # zs)"
    and a: "a < length h" and b: "b < length h"
    and major: "changeType (h ! a) = MAJOR"
    and dep: "b \<in> set (dependents (h ! a))"
  shows "newVersion (foldl calculated h (xs @ a # ys @ b # zs) ! b)
         = Some (bump (currentVersion (h ! b))
                   (if changeType (h ! b) = MAJOR then ''major'' else ''minor''))"
proof -
  define h1 where "h1 = foldl calculated h xs"
  define h2 where "h2 = calculated h1 a"
  define h3 where "h3 = foldl calculated h2 ys"
  define h4 where "h4 = calculated h3 b"
  have fin: "foldl calculated h (xs @ a # ys @ b # zs) = foldl calculated h4 zs"
    by (simp add: h1_def h2_def h3_def h4_def)
  have a1: "changeType (h1 ! a) = MAJOR"
    unfolding h1_def using major by (simp add: loop_changeType_steady)
  have d1: "b \<in> set (dependents (h1 ! a))"
    unfolding h1_def using dep by (simp add: loop_frame)
  have b1: "b < length h1"
    unfolding h1_def using b by simp
  have m1: "changeType (h1 ! b) = MAJOR \<longleftrightarrow> changeType (h ! b) = MAJOR"
    unfolding h1_def by (rule loop_changeType_major_iff)
  have c2: "changeType (h2 ! b) =
        (if changeType (h1 ! b) = NONE \<or> changeType (h1 ! b) = PATCH then MINOR
         else changeType (h1 ! b))"
    unfolding h2_def using a1 d1 b1 by (simp add: calculated_changeType)
  have c2': "changeType (h2 ! b) = (if changeType (h ! b) = MAJOR then MAJOR else MINOR)"
    using c2 m1 by (cases "changeType (h1 ! b)") auto
  then have c3: "changeType (h3 ! b) = (if changeType (h ! b) = MAJOR then MAJOR else MINOR)"
    unfolding h3_def by (simp add: loop_changeType_steady)
  have cur3: "currentVersion (h3 ! b) = currentVersion (h ! b)"
    unfolding h3_def h2_def h1_def by (simp add: loop_frame calculated_frame)
  have b3: "b < length h3"
    unfolding h3_def h2_def using b1 by simp
  have "newVersion (h4 ! b) = Some (bump (currentVersion (h ! b))
                   (if changeType (h ! b) = MAJOR then ''major'' else ''minor''))"
    unfolding h4_def using b3 c3 cur3 by (simp add: calculated_newVersion_self)
  moreover have "b \<notin> set zs"
    using dist by simp
  ultimately show ?thesis
    unfolding fin by (simp add: loop_newVersion_other)
qed

lemma split_at_two:
  assumes "j < i" "i < length l"
  shows "l = take j l @ l ! j # take (i - Suc j) (drop (Suc j) l) @ l ! i # drop (Suc i) l"
proof -
  have "l = take j l @ l ! j # drop (Suc j) l"
    using assms by (simp add: id_take_nth_drop)
  moreover have "drop (Suc j) l = take (i - Suc j) (drop (Suc j) l)
      @ drop (Suc j) l ! (i - Suc j) # drop (Suc (i - Suc j)) (drop (Suc j) l)"
    using assms by (intro id_take_nth_drop) simp
  moreover have "drop (Suc j) l ! (i - Suc j) = l ! i"
    using assms by simp
  moreover have "drop (Suc (i - Suc j)) (drop (Suc j) l) = drop (Suc i) l"
    using assms by simp
  ultimately show ?thesis by metis
qed

lemma calculateNewVersions_result:
  "calculateNewVersions m =
     Inr ((topologicalSort m)\<lparr>heap := foldl calculated (heap m) (moduleOrder (topologicalSort m))\<rparr>)"
  by (simp add: calculateNewVersions_def Let_def calculateLoop_foldl)

lemma direct_dependent_in_graph:
  assumes wf: "wfGraph m" and ac: "\<not> hasCycle m" and mir: "dependentsMirror m"
    and a: "a \<in> set (graphValues m)" and major: "changeType (heap m ! a) = MAJOR"
    and dep: "b \<in> set (dependents (heap m ! a))"
  shows "newVersion (foldl calculated (heap m) (moduleOrder (topologicalSort m)) ! b)
         = Some (bump (currentVersion (heap m ! b))
                   (if changeType (heap m ! b) = MAJOR then ''major'' else ''minor''))"
proof -
  let ?ord = "moduleOrder (topologicalSort m)"
  note ts = topologicalSort_sorted [OF wf ac]
  have bG: "b \<in> set (graphValues m)" and ab: "a \<in> set (dependencies (heap m ! b))"
    using mir a dep by (auto simp: dependentsMirror_def)
  have valid: "\<forall>x\<in>set (graphValues m). x < length (heap m)"
    using wf by (auto simp: wfGraph_def graphSound_def graphValues_def)
  from bG obtain i where i: "i < length ?ord" "?ord ! i = b"
    using ts(2) by (metis in_set_conv_nth)
  then obtain j where j: "j < i" "?ord ! j = a"
    using ts(3) ab by (auto simp: depsBefore_def)
  have "?ord = take j ?ord @ ?ord ! j # take (i - Suc j) (drop (Suc j) ?ord)
               @ ?ord ! i # drop (Suc i) ?ord"
    using j(1) i(1) by (rule split_at_two)
  then obtain xs ys zs where ord: "?ord = xs @ a # ys @ b # zs"
    using i(2) j(2) by metis
  have "distinct (xs @ a # ys @ b # zs)"
    using ts(1) ord by simp
  from direct_dependent_bumped [OF this _ _ major dep] valid a bG
  show ?thesis
    unfolding ord by blast
qed

lemma loop_changeType_untouched:
  "\<forall>a\<in>set as. \<not> (changeType (h ! a) = MAJOR \<and> b \<in> set (dependents (h ! a))) \<Longrightarrow>
   changeType (foldl calculated h as ! b) = changeType (h ! b)"
proof (induction as arbitrary: h)
  case Nil
  then show ?case by simp
next
  case (Cons a as)
  have step: "changeType (calculated h a ! b) = changeType (h ! b)"
    using Cons.prems by (auto simp: calculated_changeType)
  have "\<forall>x\<in>set as. \<not> (changeType (calculated h a ! x) = MAJOR
            \<and> b \<in> set (dependents (calculated h a ! x)))"
  proof
    fix x
    assume x: "x \<in> set as"
    have "changeType (calculated h a ! x) = MAJOR \<longleftrightarrow> changeType (h ! x) = MAJOR"
      using loop_changeType_major_iff [of h "[a]" x] by simp
    then show "\<not> (changeType (calculated h a ! x) = MAJOR
            \<and> b \<in> set (dependents (calculated h a ! x)))"
      using Cons.prems x by (simp add: calculated_frame)
  qed
  then have "changeType (foldl calculated (calculated h a) as ! b) = changeType (calculated h a ! b)"
    by (rule Cons.IH)
  then show ?case
    using step by simp
qed

lemma no_major_dependency_unchanged:
  assumes wf: "wfGraph m" and ac: "\<not> hasCycle m" and mir: "dependentsMirror m"
    and b: "b \<in> set (graphValues m)" and none: "changeType (heap m ! b) = NONE"
    and deps: "\<forall>d\<in>set (dependencies (heap m ! b)). changeType (heap m ! d) \<noteq> MAJOR"
  shows "newVersion (foldl calculated (heap m) (moduleOrder (topologicalSort m)) ! b)
         = Some (currentVersion (heap m ! b))"
proof -
  let ?ord = "moduleOrder (topologicalSort m)"
  note ts = topologicalSort_sorted [OF wf ac]
  have valid: "b < length (heap m)"
    using wf b by (auto simp: wfGraph_def graphSound_def graphValues_def)
  from b have "b \<in> set ?ord"
    using ts(2) by simp
  then obtain xs zs where ord: "?ord = xs @ b # zs"
    by (auto simp: in_set_conv_decomp)
  have dist: "b \<notin> set zs"
    using ts(1) ord by simp
  have sub: "set xs \<subseteq> set (graphValues m)"
    using ts(2) ord by auto
  define h1 where "h1 = foldl calculated (heap m) xs"
  have "\<forall>a\<in>set xs. \<not> (changeType (heap m ! a) = MAJOR \<and> b \<in> set (dependents (heap m ! a)))"
  proof (intro ballI notI)
    fix a
    assume a: "a \<in> set xs" and A: "changeType (heap m ! a) = MAJOR \<and> b \<in> set (dependents (heap m ! a))"
    have "a \<in> set (dependencies (heap m ! b))"
      using mir a sub A by (auto simp: dependentsMirror_def)
    then show False
      using deps A by simp
  qed
  then have c1: "changeType (h1 ! b) = NONE"
    unfolding h1_def using none by (simp add: loop_changeType_untouched)
  have d1: "\<not> list_ex (\<lambda>dep. changeType (h1 ! dep) = MAJOR) (dependencies (h1 ! b))"
    unfolding h1_def using deps by (simp add: list_ex_iff loop_frame loop_changeType_major_iff)
  have cur: "currentVersion (h1 ! b) = currentVersion (heap m ! b)"
    unfolding h1_def by (simp add: loop_frame)
  have b1: "b < length h1"
    unfolding h1_def using valid by simp
  have "newVersion (calculated h1 b ! b) = Some (currentVersion (heap m ! b))"
    using b1 c1 d1 cur by (simp add: calculated_newVersion_self)
  moreover have "foldl calculated (heap m) ?ord = foldl calculated (calculated h1 b) zs"
    unfolding ord h1_def by simp
  ultimately show ?thesis
    using dist by (simp add: loop_newVersion_other)
qed

lemma length3: "length l = 3 \<Longrightarrow> \<exists>A B C. l = [A, B, C]"
  by (cases l; cases "tl l"; cases "tl (tl l)") auto

lemma chain_order:
  assumes "isChain m"
  shows "moduleOrder (topologicalSort m) = [0, 1, 2]"
proof -
  from assms obtain A B C where h: "heap m = [A, B, C]"
    using length3 [of "heap m"] by (auto simp: isChain_def)
  have f: "dependencies A = []" "dependencies B = [0]" "dependencies C = [1]"
    "name A \<noteq> name B" "name A \<noteq> name C" "name B \<noteq> name C" "graphValues m = [0, 1, 2]"
    using assms h by (auto simp: isChain_def)
  have 0: "visit [A, B, C] 0 ([], []) = ([name A], [0])"
    using f by (simp add: visit.simps)
  have 1: "visit [A, B, C] (Suc 0) ([name A], [0]) = ([name A, name B], [0, Suc 0])"
    using f by (simp add: visit.simps)
  have 2: "visit [A, B, C] 2 ([name A, name B], [0, Suc 0])
           = ([name A, name B, name C], [0, Suc 0, 2])"
    using f by (simp add: visit.simps)
  show ?thesis
    using f by (simp add: topologicalSort_order h 0 1 2)
qed

lemma chain_versions:
  assumes "isChain m"
  shows "map newVersion (foldl calculated (heap m) [0, 1, 2])
         = [Some (bump (currentVersion (heap m ! 0)) ''major''),
            Some (bump (currentVersion (heap m ! 1)) ''minor''),
            Some (currentVersion (heap m ! 2))]"
proof -
  from assms obtain A B C where h: "heap m = [A, B, C]"
    using length3 [of "heap m"] by (auto simp: isChain_def)
  have f: "dependencies A = []" "dependencies B = [0]" "dependencies C = [1]"
    "dependents A = [1]" "dependents B = [2]" "dependents C = []"
    "changeType A = MAJOR" "changeType B = NONE" "changeType C = NONE"
    using assms h by (auto simp: isChain_def)
  define h1 where "h1 = calculated [A, B, C] 0"
  have h1: "h1 = [A\<lparr>newVersion := Some (bump (currentVersion A) ''major'')\<rparr>,
                  B\<lparr>changeType := MINOR\<rparr>, C]"
    unfolding h1_def using f by (simp add: calculated_def updateDependents_def setNewVersion_def)
  define h2 where "h2 = calculated h1 (Suc 0)"
  have h2: "h2 = [A\<lparr>newVersion := Some (bump (currentVersion A) ''major'')\<rparr>,
                  B\<lparr>changeType := MINOR, newVersion := Some (bump (currentVersion B) ''minor'')\<rparr>, C]"
    unfolding h2_def h1 using f by (simp add: calculated_def setNewVersion_def)
  define h3 where "h3 = calculated h2 2"
  have h3: "h3 = [A\<lparr>newVersion := Some (bump (currentVersion A) ''major'')\<rparr>,
                  B\<lparr>changeType := MINOR, newVersion := Some (bump (currentVersion B) ''minor'')\<rparr>,
                  C\<lparr>newVersion := Some (currentVersion C)\<rparr>]"
    unfolding h3_def h2 using f by (simp add: calculated_def setNewVersion_def)
  have "foldl calculated (heap m) [0, 1, 2] = h3"
    by (simp add: h h3_def h2_def h1_def)
  then show ?thesis
    by (simp add: h3 h)
qed

section \<open>Properties of version extraction\<close>

lemma dropPrefix_Some: "dropPrefix p s = Some r \<longleftrightarrow> s = p @ r"
  by (induction p s rule: dropPrefix.induct) auto

lemma skipSpaces_decomp: "\<exists>ws. s = ws @ skipSpaces s \<and> list_all isSpace ws"
  by (rule exI [of _ "takeWhile isSpace s"])
     (auto simp: skipSpaces_def list_all_iff dest: set_takeWhileD)

lemma skipSpaces_append:
  "list_all isSpace ws \<Longrightarrow> \<not> isSpace x \<Longrightarrow> skipSpaces (ws @ x # r) = x # r"
  by (induction ws) (simp_all add: skipSpaces_def)

lemma dropQuote_Some: "dropQuote s = Some r \<longleftrightarrow> (\<exists>q. s = q # r \<and> isQuote q)"
  by (cases s) auto

lemma takeName_Some:
  "takeName s = Some (v, r) \<Longrightarrow> s = v @ r \<and> v \<noteq> [] \<and> list_all (\<lambda>x. \<not> isQuote x) v"
  by (auto simp: takeName_def list_all_iff split: if_splits dest: set_takeWhileD)

lemma takeName_append:
  "v \<noteq> [] \<Longrightarrow> list_all (\<lambda>x. \<not> isQuote x) v \<Longrightarrow> isQuote q \<Longrightarrow>
   takeName (v @ q # r) = Some (v, q # r)"
  by (simp add: takeName_def list_all_iff takeWhile_append2 dropWhile_append2)

lemma versionAt_decomp:
  assumes "versionAt s = Some v"
  shows "\<exists>ws1 ws2 q1 q2 post.
           s = ''version'' @ ws1 @ ''='' @ ws2 @ q1 # v @ q2 # post
           \<and> list_all isSpace ws1 \<and> list_all isSpace ws2 \<and> isQuote q1 \<and> isQuote q2
           \<and> v \<noteq> [] \<and> list_all (\<lambda>x. \<not> isQuote x) v"
proof -
  from assms obtain r1 r2 r3 v' r4 r5 where
        1: "dropPrefix ''version'' s = Some r1"
    and 2: "dropPrefix ''='' (skipSpaces r1) = Some r2"
    and 3: "dropQuote (skipSpaces r2) = Some r3"
    and 4: "takeName r3 = Some (v', r4)"
    and 5: "dropQuote r4 = Some r5"
    and v: "v' = v"
    by (auto simp: versionAt_def split: Option.bind_splits)
  obtain ws1 where w1: "r1 = ws1 @ skipSpaces r1" "list_all isSpace ws1"
    using skipSpaces_decomp by blast
  obtain ws2 where w2: "r2 = ws2 @ skipSpaces r2" "list_all isSpace ws2"
    using skipSpaces_decomp by blast
  from 3 obtain q1 where q1: "skipSpaces r2 = q1 # r3" "isQuote q1"
    by (auto simp: dropQuote_Some)
  from 5 obtain q2 where q2: "r4 = q2 # r5" "isQuote q2"
    by (auto simp: dropQuote_Some)
  from 4 v have n: "r3 = v @ r4" "v \<noteq> []" "list_all (\<lambda>x. \<not> isQuote x) v"
    by (auto dest: takeName_Some)
  have "s = ''version'' @ r1"
    using 1 by (simp add: dropPrefix_Some)
  also have "r1 = ws1 @ skipSpaces r1"
    by (rule w1(1))
  also have "skipSpaces r1 = ''='' @ r2"
    using 2 by (simp add: dropPrefix_Some)
  also have "r2 = ws2 @ skipSpaces r2"
    by (rule w2(1))
  also have "skipSpaces r2 = q1 # v @ q2 # r5"
    using q1(1) n(1) q2(1) by simp
  finally have "s = ''version'' @ ws1 @ ''='' @ ws2 @ q1 # v @ q2 # r5" .
  then show ?thesis
    using w1(2) w2(2) q1(2) q2(2) n(2,3) by (intro exI conjI) assumption+
qed

lemma versionAt_complete:
  assumes "list_all isSpace ws1" "list_all isSpace ws2" "isQuote q1" "isQuote q2"
    "v \<noteq> []" "list_all (\<lambda>x. \<not> isQuote x) v"
  shows "versionAt (''version'' @ ws1 @ ''='' @ ws2 @ q1 # v @ q2 # post) = Some v"
proof -
  have e: "\<not> isSpace (CHR ''='')"
    by (simp add: isSpace_def)
  have q: "\<not> isSpace q1"
    using assms(3) by (auto simp: isQuote_def isSpace_def)
  have 2: "skipSpaces (ws1 @ CHR ''='' # ws2 @ q1 # v @ q2 # post)
           = CHR ''='' # ws2 @ q1 # v @ q2 # post"
    using assms(1) e by (rule skipSpaces_append)
  have 4: "skipSpaces (ws2 @ q1 # v @ q2 # post) = q1 # v @ q2 # post"
    using assms(2) q by (rule skipSpaces_append)
  have 5: "takeName (v @ q2 # post) = Some (v, q2 # post)"
    using assms(5,6,4) by (rule takeName_append)
  show ?thesis
    using assms(3,4) by (simp add: versionAt_def 2 4 5)
qed

lemma hasVersionDeclarationI:
  "c = pre @ ''version'' @ ws1 @ ''='' @ ws2 @ q1 # v @ q2 # post \<Longrightarrow>
   list_all isSpace ws1 \<Longrightarrow> list_all isSpace ws2 \<Longrightarrow> isQuote q1 \<Longrightarrow> isQuote q2 \<Longrightarrow>
   v \<noteq> [] \<Longrightarrow> list_all (\<lambda>x. \<not> isQuote x) v \<Longrightarrow> hasVersionDeclaration c"
  unfolding hasVersionDeclaration_def by (intro exI conjI) assumption+

lemma versionMatch_Some:
  "versionMatch c = Some v \<Longrightarrow> \<exists>pre s. c = pre @ s \<and> versionAt s = Some v"
proof (induction c)
  case Nil
  then show ?case by simp
next
  case (Cons x c)
  show ?case
  proof (cases "versionAt (x # c)")
    case None
    then have "versionMatch c = Some v"
      using Cons.prems by simp
    then obtain pre s where "c = pre @ s" "versionAt s = Some v"
      using Cons.IH by blast
    then have "x # c = (x # pre) @ s \<and> versionAt s = Some v"
      by simp
    then show ?thesis by blast
  next
    case (Some w)
    then have "x # c = [] @ (x # c) \<and> versionAt (x # c) = Some v"
      using Cons.prems by simp
    then show ?thesis by blast
  qed
qed

lemma versionMatch_found: "versionAt s = Some v \<Longrightarrow> versionMatch (pre @ s) \<noteq> None"
proof (induction pre)
  case Nil
  then show ?case by (cases s) simp_all
next
  case (Cons x pre)
  then show ?case by (simp split: option.splits)
qed

lemma hasVersionDeclaration_iff: "hasVersionDeclaration c \<longleftrightarrow> versionMatch c \<noteq> None"
proof
  assume "hasVersionDeclaration c"
  then obtain pre ws1 ws2 q1 v q2 post where
    c: "c = pre @ ''version'' @ ws1 @ ''='' @ ws2 @ q1 # v @ q2 # post"
    and h: "list_all isSpace ws1" "list_all isSpace ws2" "isQuote q1" "isQuote q2"
       "v \<noteq> []" "list_all (\<lambda>x. \<not> isQuote x) v"
    unfolding hasVersionDeclaration_def by (elim exE conjE)
  have "versionAt (''version'' @ ws1 @ ''='' @ ws2 @ q1 # v @ q2 # post) = Some v"
    using h by (rule versionAt_complete)
  then show "versionMatch c \<noteq> None"
    unfolding c by (rule versionMatch_found)
next
  assume "versionMatch c \<noteq> None"
  then obtain v where "versionMatch c = Some v"
    by blast
  then obtain pre s where c: "c = pre @ s" and "versionAt s = Some v"
    using versionMatch_Some by blast
  from versionAt_decomp [OF this(2)] obtain ws1 ws2 q1 q2 post where
    s: "s = ''version'' @ ws1 @ ''='' @ ws2 @ q1 # v @ q2 # post"
    and h: "list_all isSpace ws1" "list_all isSpace ws2" "isQuote q1" "isQuote q2"
    "v \<noteq> []" "list_all (\<lambda>x. \<not> isQuote x) v"
    by (elim exE conjE)
  have "c = pre @ ''version'' @ ws1 @ ''='' @ ws2 @ q1 # v @ q2 # post"
    unfolding c s ..
  then show "hasVersionDeclaration c"
    using h by (rule hasVersionDeclarationI)
qed

lemma extractVersion_default: "\<not> hasVersionDeclaration c \<Longrightarrow> extractVersion c = ''0.1.0''"
  by (simp add: hasVersionDeclaration_iff extractVersion_def)

lemma build_versions:
  "map currentVersion (heap (buildDependencyGraph files ns m))
   = map currentVersion (heap m)
     @ map (\<lambda>n. extractVersion (the (files n))) (filter (\<lambda>n. files n \<noteq> None) ns)"
proof (induction ns arbitrary: m)
  case Nil
  then show ?case by (simp add: build_Nil)
next
  case (Cons n ns)
  show ?case
    by (cases "files n") (simp_all add: build_Cons Cons.IH addModule_versions)
qed

lemma built_version:
  assumes "i < length (heap (buildDependencyGraph files ns (newManager dry)))"
  shows "currentVersion (heap (buildDependencyGraph files ns (newManager dry)) ! i)
         = extractVersion (the (files (name (heap (buildDependencyGraph files ns (newManager dry)) ! i))))"
proof -
  let ?h = "heap (buildDependencyGraph files ns (newManager dry))"
  let ?l = "filter (\<lambda>n. files n \<noteq> None) ns"
  have n: "map name ?h = ?l"
    using build_names [of files ns "newManager dry"] by (simp add: newManager_def)
  have v: "map currentVersion ?h = map (\<lambda>n. extractVersion (the (files n))) ?l"
    using build_versions [of files ns "newManager dry"] by (simp add: newManager_def)
  have i: "i < length ?l"
    using assms n by (metis length_map)
  have "currentVersion (?h ! i) = map currentVersion ?h ! i"
    using assms by simp
  also have "\<dots> = extractVersion (the (files (?l ! i)))"
    using i by (simp add: v)
  also have "?l ! i = map name ?h ! i"
    by (simp add: n)
  also have "\<dots> = name (?h ! i)"
    using assms by simp
  finally show ?thesis .
qed

lemma analyze_foldl_frame:
  "length (foldl (\<lambda>h a. h[a := (h ! a)\<lparr>changeType := f (name (h ! a))\<rparr>]) h as) = length h"
  "currentVersion (foldl (\<lambda>h a. h[a := (h ! a)\<lparr>changeType := f (name (h ! a))\<rparr>]) h as ! i)
   = currentVersion (h ! i)"
  "name (foldl (\<lambda>h a. h[a := (h ! a)\<lparr>changeType := f (name (h ! a))\<rparr>]) h as ! i) = name (h ! i)"
  "dependencies (foldl (\<lambda>h a. h[a := (h ! a)\<lparr>changeType := f (name (h ! a))\<rparr>]) h as ! i)
   = dependencies (h ! i)"
  "dependents (foldl (\<lambda>h a. h[a := (h ! a)\<lparr>changeType := f (name (h ! a))\<rparr>]) h as ! i)
   = dependents (h ! i)"
  by (induction as arbitrary: h) (simp_all add: nth_update_same)

lemma analyzeChanges_frame:
  "length (heap (analyzeChanges history m)) = length (heap m)"
  "currentVersion (heap (analyzeChanges history m) ! i) = currentVersion (heap m ! i)"
  "name (heap (analyzeChanges history m) ! i) = name (heap m ! i)"
  "dependencies (heap (analyzeChanges history m) ! i) = dependencies (heap m ! i)"
  "dependents (heap (analyzeChanges history m) ! i) = dependents (heap m ! i)"
  "moduleGraph (analyzeChanges history m) = moduleGraph m"
  by (simp_all add: analyzeChanges_def
        analyze_foldl_frame [where f="\<lambda>x. determineChangeType (history x)"])

lemma execute_Inr:
  assumes "execute files ns history dry = Inr (m2, w)"
  shows "heap m2 = foldl calculated
            (heap (analyzeChanges history (buildDependencyGraph files ns (newManager dry))))
            (moduleOrder (topologicalSort
               (analyzeChanges history (buildDependencyGraph files ns (newManager dry)))))"
  using assms
  by (auto simp: execute_def Let_def calculateNewVersions_result split: sum.splits)

lemma execute_version:
  assumes "execute files ns history dry = Inr (m2, w)" and "i < length (heap m2)"
  shows "currentVersion (heap m2 ! i) = extractVersion (the (files (name (heap m2 ! i))))"
proof -
  let ?b = "buildDependencyGraph files ns (newManager dry)"
  note h = execute_Inr [OF assms(1)]
  have "i < length (heap ?b)"
    using assms(2) by (simp add: h analyzeChanges_frame)
  then have "currentVersion (heap ?b ! i) = extractVersion (the (files (name (heap ?b ! i))))"
    by (rule built_version)
  then show ?thesis
    by (simp add: h loop_frame analyzeChanges_frame)
qed

lemma bump_default:
  "incrementVersion ''0.1.0'' ''major'' = Inr ''1.0.0''"
  "incrementVersion ''0.1.0'' ''minor'' = Inr ''0.2.0''"
  "incrementVersion ''0.1.0'' ''patch'' = Inr ''0.1.1''"
  by (simp_all add: incrementVersion_def evalNumber)

text \<open>
  The whole run on a listing without repeated names. \<open>analyzeChanges\<close> changes severities
  only, so the graph that reaches the calculation is a module graph without a cycle: the
  order of the manager that \<open>execute\<close> returns holds every node once, dependencies first,
  and its versions are those of the one-step propagation.
\<close>

lemma isWalk_cong:
  "length h' = length h \<Longrightarrow> (\<And>i. dependencies (h' ! i) = dependencies (h ! i)) \<Longrightarrow>
   isWalk h' w = isWalk h w"
  by (induction h w rule: isWalk.induct) simp_all

lemma analyzeChanges_wellformed:
  "wfGraph (analyzeChanges history m) = wfGraph m"
  "dependentsMirror (analyzeChanges history m) = dependentsMirror m"
  "hasCycle (analyzeChanges history m) = hasCycle m"
proof -
  have w: "isWalk (heap (analyzeChanges history m)) w = isWalk (heap m) w" for w
    by (rule isWalk_cong) (simp_all add: analyzeChanges_frame)
  have n: "namesOf (heap (analyzeChanges history m)) w = namesOf (heap m) w" for w
    by (simp add: namesOf_def analyzeChanges_frame)
  show "wfGraph (analyzeChanges history m) = wfGraph m"
    by (simp add: wfGraph_def graphSound_def graphValues_def analyzeChanges_frame)
  show "dependentsMirror (analyzeChanges history m) = dependentsMirror m"
    by (simp add: dependentsMirror_def graphValues_def analyzeChanges_frame)
  show "hasCycle (analyzeChanges history m) = hasCycle m"
    by (simp add: hasCycle_def graphValues_def analyzeChanges_frame w n)
qed

lemma execute_result:
  assumes "execute files ns history dry = Inr (m2, w)"
  shows "\<not> hasCycle (analyzeChanges history (buildDependencyGraph files ns (newManager dry)))"
    and "m2 = (topologicalSort (analyzeChanges history (buildDependencyGraph files ns (newManager dry))))
              \<lparr>heap := foldl calculated
                 (heap (analyzeChanges history (buildDependencyGraph files ns (newManager dry))))
                 (moduleOrder (topologicalSort
                    (analyzeChanges history (buildDependencyGraph files ns (newManager dry)))))\<rparr>"
proof -
  let ?b = "buildDependencyGraph files ns (newManager dry)"
  have "\<not> isl (detectCyclicDependencies ?b)"
    using assms by (auto simp: execute_def Let_def split: sum.splits)
  then show "\<not> hasCycle (analyzeChanges history ?b)"
    by (simp add: analyzeChanges_wellformed detect_iff_hasCycle)
  show "m2 = (topologicalSort (analyzeChanges history ?b))
              \<lparr>heap := foldl calculated (heap (analyzeChanges history ?b))
                 (moduleOrder (topologicalSort (analyzeChanges history ?b)))\<rparr>"
    using assms by (auto simp: execute_def Let_def calculateNewVersions_result split: sum.splits)
qed

lemma analysed_values:
  assumes "distinct ns"
  shows "set (graphValues (analyzeChanges history (buildDependencyGraph files ns (newManager dry))))
         = {..<length (heap (analyzeChanges history (buildDependencyGraph files ns (newManager dry))))}"
proof -
  let ?b = "buildDependencyGraph files ns (newManager dry)"
  have "graphValues ?b = [0..<length (heap ?b)]"
    using assms by (intro build_values_full) (simp_all add: newManager_def graphValues_def)
  then show ?thesis
    by (auto simp: graphValues_def analyzeChanges_frame)
qed

corollary execute_order:
  assumes "distinct ns" and "execute files ns history dry = Inr (m2, w)"
  shows "distinct (moduleOrder m2)"
    and "set (moduleOrder m2) = {..<length (heap m2)}"
    and "depsBefore (heap m2) (moduleOrder m2)"
proof -
  let ?an = "analyzeChanges history (buildDependencyGraph files ns (newManager dry))"
  note r = execute_result [OF assms(2)]
  have wf: "wfGraph ?an"
    using assms(1) by (simp add: analyzeChanges_wellformed built_wellformed)
  note ts = topologicalSort_sorted [OF wf r(1)]
  have ord: "moduleOrder m2 = moduleOrder (topologicalSort ?an)"
    by (subst r(2)) simp
  have len: "length (heap m2) = length (heap ?an)"
    by (subst r(2)) simp
  have deps: "dependencies (heap m2 ! i) = dependencies (heap ?an ! i)" for i
    by (subst r(2)) (simp add: loop_frame)
  show "distinct (moduleOrder m2)"
    using ts(1) by (simp add: ord)
  show "set (moduleOrder m2) = {..<length (heap m2)}"
    using ts(2) analysed_values [OF assms(1), of history files dry] by (simp add: ord len)
  show "depsBefore (heap m2) (moduleOrder m2)"
    using ts(3) by (simp add: depsBefore_def ord deps)
qed

corollary execute_direct_dependent:
  assumes "distinct ns" and "execute files ns history dry = Inr (m2, w)"
    and "an = analyzeChanges history (buildDependencyGraph files ns (newManager dry))"
    and "a < length (heap an)" and "changeType (heap an ! a) = MAJOR"
    and "b \<in> set (dependents (heap an ! a))"
  shows "newVersion (heap m2 ! b)
         = Some (bump (currentVersion (heap an ! b))
                   (if changeType (heap an ! b) = MAJOR then ''major'' else ''minor''))"
proof -
  note r = execute_result [OF assms(2), folded assms(3)]
  have wf: "wfGraph an" and mir: "dependentsMirror an"
    using assms(1) by (simp_all add: assms(3) analyzeChanges_wellformed built_wellformed)
  have vals: "set (graphValues an) = {..<length (heap an)}"
    unfolding assms(3) using assms(1) by (rule analysed_values)
  have h2: "heap m2 = foldl calculated (heap an) (moduleOrder (topologicalSort an))"
    by (subst r(2)) simp
  show ?thesis
    unfolding h2 using wf r(1) mir _ assms(5,6)
    by (rule direct_dependent_in_graph) (simp add: vals assms(4))
qed

corollary execute_no_major_dependency:
  assumes "distinct ns" and "execute files ns history dry = Inr (m2, w)"
    and "an = analyzeChanges history (buildDependencyGraph files ns (newManager dry))"
    and "c < length (heap an)" and "changeType (heap an ! c) = NONE"
    and "\<forall>d\<in>set (dependencies (heap an ! c)). changeType (heap an ! d) \<noteq> MAJOR"
  shows "newVersion (heap m2 ! c) = Some (currentVersion (heap an ! c))"
proof -
  note r = execute_result [OF assms(2), folded assms(3)]
  have wf: "wfGraph an" and mir: "dependentsMirror an"
    using assms(1) by (simp_all add: assms(3) analyzeChanges_wellformed built_wellformed)
  have vals: "set (graphValues an) = {..<length (heap an)}"
    unfolding assms(3) using assms(1) by (rule analysed_values)
  have h2: "heap m2 = foldl calculated (heap an) (moduleOrder (topologicalSort an))"
    by (subst r(2)) simp
  show ?thesis
    unfolding h2 using wf r(1) mir _ assms(5,6)
    by (rule no_major_dependency_unchanged) (simp add: vals assms(4))
qed

section \<open>Theorems on the whole run\<close>

text \<open>
  Claim C10. When the content of a build file has no version declaration, \<open>extractVersion\<close>
  returns \<open>0.1.0\<close>; the node \<open>buildDependencyGraph\<close> creates for the module has it as
  \<open>currentVersion\<close>, and still has it in the manager that \<open>execute\<close> returns; and the
  calculation for a node with that current version assigns \<open>1.0.0\<close>, \<open>0.2.0\<close>, \<open>0.1.1\<close> or
  \<open>0.1.0\<close>, by the node's severity.
\<close>

theorem extractVersion_defaults_to_0_1_0:
  "(\<not> hasVersionDeclaration c \<longrightarrow> extractVersion c = ''0.1.0'')
   \<and> (files n = Some c \<and> \<not> hasVersionDeclaration c \<longrightarrow>
        currentVersion (heap (addModule files m n) ! length (heap m)) = ''0.1.0'')
   \<and> (execute files ns history dry = Inr (m2, w) \<and> i < length (heap m2)
        \<and> files (name (heap m2 ! i)) = Some c \<and> \<not> hasVersionDeclaration c \<longrightarrow>
        currentVersion (heap m2 ! i) = ''0.1.0'')
   \<and> (a < length h \<and> currentVersion (h ! a) = ''0.1.0'' \<longrightarrow>
        (\<exists>h'. calculateNode h a = Inr h'
           \<and> newVersion (h' ! a) =
               Some (case changeType (h ! a) of
                       MAJOR \<Rightarrow> ''1.0.0'' | MINOR \<Rightarrow> ''0.2.0'' | PATCH \<Rightarrow> ''0.1.1''
                     | NONE \<Rightarrow> if list_ex (\<lambda>dep. changeType (h ! dep) = MAJOR) (dependencies (h ! a))
                               then ''0.2.0'' else ''0.1.0'')))"
proof -
  have 1: "\<not> hasVersionDeclaration c \<longrightarrow> extractVersion c = ''0.1.0''"
    by (simp add: extractVersion_default)
  have 2: "files n = Some c \<and> \<not> hasVersionDeclaration c \<longrightarrow>
        currentVersion (heap (addModule files m n) ! length (heap m)) = ''0.1.0''"
  proof
    assume A: "files n = Some c \<and> \<not> hasVersionDeclaration c"
    then have "map currentVersion (heap (addModule files m n)) ! length (heap m) = extractVersion c"
      by (simp add: addModule_versions nth_append)
    moreover have "length (heap m) < length (heap (addModule files m n))"
      using A by (simp add: addModule_length)
    ultimately show "currentVersion (heap (addModule files m n) ! length (heap m)) = ''0.1.0''"
      using A by (simp add: extractVersion_default)
  qed
  have 3: "execute files ns history dry = Inr (m2, w) \<and> i < length (heap m2)
        \<and> files (name (heap m2 ! i)) = Some c \<and> \<not> hasVersionDeclaration c \<longrightarrow>
        currentVersion (heap m2 ! i) = ''0.1.0''"
    using execute_version [of files ns history dry m2 w i] by (simp add: extractVersion_default)
  have 4: "a < length h \<and> currentVersion (h ! a) = ''0.1.0'' \<longrightarrow>
        (\<exists>h'. calculateNode h a = Inr h'
           \<and> newVersion (h' ! a) =
               Some (case changeType (h ! a) of
                       MAJOR \<Rightarrow> ''1.0.0'' | MINOR \<Rightarrow> ''0.2.0'' | PATCH \<Rightarrow> ''0.1.1''
                     | NONE \<Rightarrow> if list_ex (\<lambda>dep. changeType (h ! dep) = MAJOR) (dependencies (h ! a))
                               then ''0.2.0'' else ''0.1.0''))"
  proof
    assume A: "a < length h \<and> currentVersion (h ! a) = ''0.1.0''"
    have b: "bump ''0.1.0'' ''major'' = ''1.0.0''" "bump ''0.1.0'' ''minor'' = ''0.2.0''"
      "bump ''0.1.0'' ''patch'' = ''0.1.1''"
      by (simp_all add: bump_def bump_default)
    have "newVersion (calculated h a ! a) =
               Some (case changeType (h ! a) of
                       MAJOR \<Rightarrow> ''1.0.0'' | MINOR \<Rightarrow> ''0.2.0'' | PATCH \<Rightarrow> ''0.1.1''
                     | NONE \<Rightarrow> if list_ex (\<lambda>dep. changeType (h ! dep) = MAJOR) (dependencies (h ! a))
                               then ''0.2.0'' else ''0.1.0'')"
      using A by (simp add: calculated_newVersion_self b split: changeType.splits)
    then show "\<exists>h'. calculateNode h a = Inr h'
           \<and> newVersion (h' ! a) =
               Some (case changeType (h ! a) of
                       MAJOR \<Rightarrow> ''1.0.0'' | MINOR \<Rightarrow> ''0.2.0'' | PATCH \<Rightarrow> ''0.1.1''
                     | NONE \<Rightarrow> if list_ex (\<lambda>dep. changeType (h ! dep) = MAJOR) (dependencies (h ! a))
                               then ''0.2.0'' else ''0.1.0'')"
      by (simp add: calculateNode_calculated)
  qed
  show ?thesis
    by (intro conjI) (fact 1, fact 2, fact 3, fact 4)
qed

text \<open>
  Claim C1, as the code has it. For the chain \<open>A \<rightarrow> B \<rightarrow> C\<close> with \<open>A\<close> classified \<open>major\<close> and
  \<open>B\<close>, \<open>C\<close> classified \<open>none\<close>, the calculation gives \<open>A\<close> its major bump and \<open>B\<close> its minor
  bump and leaves the version of \<open>C\<close> as it is. More generally, in an acyclic module graph
  whose \<open>dependents\<close> mirror its \<open>dependencies\<close>, every direct dependent of a module
  classified \<open>major\<close> gets its major bump when it is classified \<open>major\<close> itself and its
  minor bump otherwise; and a module classified \<open>none\<close> none of whose direct dependencies
  is classified \<open>major\<close> keeps its version, whatever stands further up the chain.
\<close>

theorem major_change_bumps_direct_dependents_only:
  "(isChain m \<longrightarrow>
      (\<exists>m' va vb. calculateNewVersions m = Inr m'
         \<and> incrementVersion (currentVersion (heap m ! 0)) ''major'' = Inr va
         \<and> incrementVersion (currentVersion (heap m ! 1)) ''minor'' = Inr vb
         \<and> map newVersion (heap m') = [Some va, Some vb, Some (currentVersion (heap m ! 2))]))
   \<and> (wfGraph m \<and> \<not> hasCycle m \<and> dependentsMirror m \<and> a \<in> set (graphValues m)
       \<and> changeType (heap m ! a) = MAJOR \<and> b \<in> set (dependents (heap m ! a)) \<longrightarrow>
      (\<exists>m' v. calculateNewVersions m = Inr m'
         \<and> incrementVersion (currentVersion (heap m ! b))
               (if changeType (heap m ! b) = MAJOR then ''major'' else ''minor'') = Inr v
         \<and> newVersion (heap m' ! b) = Some v))
   \<and> (wfGraph m \<and> \<not> hasCycle m \<and> dependentsMirror m \<and> c \<in> set (graphValues m)
       \<and> changeType (heap m ! c) = NONE
       \<and> (\<forall>d\<in>set (dependencies (heap m ! c)). changeType (heap m ! d) \<noteq> MAJOR) \<longrightarrow>
      (\<exists>m'. calculateNewVersions m = Inr m'
         \<and> newVersion (heap m' ! c) = Some (currentVersion (heap m ! c))))"
proof (intro conjI impI)
  let ?m' = "(topologicalSort m)\<lparr>heap := foldl calculated (heap m) (moduleOrder (topologicalSort m))\<rparr>"
  assume c: "isChain m"
  have 1: "calculateNewVersions m = Inr ?m'"
    by (rule calculateNewVersions_result)
  have 2: "incrementVersion (currentVersion (heap m ! 0)) ''major''
           = Inr (bump (currentVersion (heap m ! 0)) ''major'')"
    by (simp add: incrementVersion_bump)
  have 3: "incrementVersion (currentVersion (heap m ! 1)) ''minor''
           = Inr (bump (currentVersion (heap m ! 1)) ''minor'')"
    by (simp add: incrementVersion_bump)
  have 4: "map newVersion (heap ?m')
           = [Some (bump (currentVersion (heap m ! 0)) ''major''),
              Some (bump (currentVersion (heap m ! 1)) ''minor''),
              Some (currentVersion (heap m ! 2))]"
    using chain_versions [OF c] by (simp add: chain_order [OF c])
  show "\<exists>m' va vb. calculateNewVersions m = Inr m'
         \<and> incrementVersion (currentVersion (heap m ! 0)) ''major'' = Inr va
         \<and> incrementVersion (currentVersion (heap m ! 1)) ''minor'' = Inr vb
         \<and> map newVersion (heap m') = [Some va, Some vb, Some (currentVersion (heap m ! 2))]"
    using 1 2 3 4 by (intro exI conjI)
next
  let ?m' = "(topologicalSort m)\<lparr>heap := foldl calculated (heap m) (moduleOrder (topologicalSort m))\<rparr>"
  let ?t = "if changeType (heap m ! b) = MAJOR then ''major'' else ''minor''"
  assume A: "wfGraph m \<and> \<not> hasCycle m \<and> dependentsMirror m \<and> a \<in> set (graphValues m)
       \<and> changeType (heap m ! a) = MAJOR \<and> b \<in> set (dependents (heap m ! a))"
  have 1: "calculateNewVersions m = Inr ?m'"
    by (rule calculateNewVersions_result)
  have 2: "incrementVersion (currentVersion (heap m ! b)) ?t
           = Inr (bump (currentVersion (heap m ! b)) ?t)"
    by (simp add: incrementVersion_bump)
  have 3: "newVersion (heap ?m' ! b) = Some (bump (currentVersion (heap m ! b)) ?t)"
    using direct_dependent_in_graph [of m a b] A by simp
  show "\<exists>m' v. calculateNewVersions m = Inr m'
         \<and> incrementVersion (currentVersion (heap m ! b)) ?t = Inr v
         \<and> newVersion (heap m' ! b) = Some v"
    using 1 2 3 by (intro exI conjI)
next
  let ?m' = "(topologicalSort m)\<lparr>heap := foldl calculated (heap m) (moduleOrder (topologicalSort m))\<rparr>"
  assume A: "wfGraph m \<and> \<not> hasCycle m \<and> dependentsMirror m \<and> c \<in> set (graphValues m)
       \<and> changeType (heap m ! c) = NONE
       \<and> (\<forall>d\<in>set (dependencies (heap m ! c)). changeType (heap m ! d) \<noteq> MAJOR)"
  have 1: "calculateNewVersions m = Inr ?m'"
    by (rule calculateNewVersions_result)
  have 2: "newVersion (heap ?m' ! c) = Some (currentVersion (heap m ! c))"
    using no_major_dependency_unchanged [of m c] A by simp
  show "\<exists>m'. calculateNewVersions m = Inr m'
         \<and> newVersion (heap m' ! c) = Some (currentVersion (heap m ! c))"
    using 1 2 by (intro exI conjI)
qed

lemma demoAnalysed_value:
  "demoAnalysed =
     \<lparr>dryRun = True,
      heap = [\<lparr>name = ''core'', currentVersion = ''1.0.0'', newVersion = None, changeType = MAJOR,
               dependencies = [], dependents = [1]\<rparr>,
              \<lparr>name = ''app'', currentVersion = ''2.1.3'', newVersion = None, changeType = NONE,
               dependencies = [0], dependents = [2]\<rparr>,
              \<lparr>name = ''lib'', currentVersion = ''0.4.0'', newVersion = None, changeType = NONE,
               dependencies = [1], dependents = []\<rparr>],
      moduleGraph = [(''core'', 0), (''app'', 1), (''lib'', 2)],
      visitedModules = [], moduleOrder = []\<rparr>"
  by code_simp

lemma demoAnalysed_facts:
  "isChain demoAnalysed" "wfGraph demoAnalysed" "dependentsMirror demoAnalysed"
  "\<not> isl (detectCyclicDependencies demoAnalysed)"
  by code_simp+

theorem major_change_bumps_direct_dependents_only_witness:
  "(\<exists>m' va vb. calculateNewVersions demoAnalysed = Inr m'
         \<and> incrementVersion (currentVersion (heap demoAnalysed ! 0)) ''major'' = Inr va
         \<and> incrementVersion (currentVersion (heap demoAnalysed ! 1)) ''minor'' = Inr vb
         \<and> map newVersion (heap m')
             = [Some va, Some vb, Some (currentVersion (heap demoAnalysed ! 2))])
   \<and> (\<exists>m' v. calculateNewVersions demoAnalysed = Inr m'
         \<and> incrementVersion (currentVersion (heap demoAnalysed ! 1))
               (if changeType (heap demoAnalysed ! 1) = MAJOR then ''major'' else ''minor'') = Inr v
         \<and> newVersion (heap m' ! 1) = Some v)
   \<and> (\<exists>m'. calculateNewVersions demoAnalysed = Inr m'
         \<and> newVersion (heap m' ! 2) = Some (currentVersion (heap demoAnalysed ! 2)))"
proof -
  note T = major_change_bumps_direct_dependents_only [of demoAnalysed 0 1 2]
  have acyclic: "\<not> hasCycle demoAnalysed"
    using demoAnalysed_facts(4) by (simp add: detect_iff_hasCycle)
  have edge: "0 \<in> set (graphValues demoAnalysed)" "changeType (heap demoAnalysed ! 0) = MAJOR"
    "1 \<in> set (dependents (heap demoAnalysed ! 0))"
    by (simp_all add: demoAnalysed_value graphValues_def)
  have far: "2 \<in> set (graphValues demoAnalysed)" "changeType (heap demoAnalysed ! 2) = NONE"
    "\<forall>d\<in>set (dependencies (heap demoAnalysed ! 2)). changeType (heap demoAnalysed ! d) \<noteq> MAJOR"
    by (simp_all add: demoAnalysed_value graphValues_def)
  have hyp: "wfGraph demoAnalysed \<and> \<not> hasCycle demoAnalysed \<and> dependentsMirror demoAnalysed
       \<and> 0 \<in> set (graphValues demoAnalysed) \<and> changeType (heap demoAnalysed ! 0) = MAJOR
       \<and> 1 \<in> set (dependents (heap demoAnalysed ! 0))"
    by (intro conjI) (fact demoAnalysed_facts(2), fact acyclic, fact demoAnalysed_facts(3),
        fact edge(1), fact edge(2), fact edge(3))
  have hyp2: "wfGraph demoAnalysed \<and> \<not> hasCycle demoAnalysed \<and> dependentsMirror demoAnalysed
       \<and> 2 \<in> set (graphValues demoAnalysed) \<and> changeType (heap demoAnalysed ! 2) = NONE
       \<and> (\<forall>d\<in>set (dependencies (heap demoAnalysed ! 2)). changeType (heap demoAnalysed ! d) \<noteq> MAJOR)"
    by (intro conjI) (fact demoAnalysed_facts(2), fact acyclic, fact demoAnalysed_facts(3),
        fact far(1), fact far(2), fact far(3))
  show ?thesis
    by (intro conjI)
       (rule T [THEN conjunct1, THEN mp, OF demoAnalysed_facts(1)],
        rule T [THEN conjunct2, THEN conjunct1, THEN mp, OF hyp],
        rule T [THEN conjunct2, THEN conjunct2, THEN mp, OF hyp2])
qed

theorem transitive_dependent_counterexample:
  "map changeType (heap demoAnalysed) = [MAJOR, NONE, NONE]
   \<and> map dependencies (heap demoAnalysed) = [[], [0], [1]]
   \<and> map currentVersion (heap demoAnalysed) = [''1.0.0'', ''2.1.3'', ''0.4.0'']
   \<and> map newVersion (heap (projr (calculateNewVersions demoAnalysed)))
       = [Some ''2.0.0'', Some ''2.2.0'', Some ''0.4.0'']
   \<and> incrementVersion ''0.4.0'' ''minor'' = Inr ''0.5.0''"
  by code_simp

text \<open>
  Claim C4, at the failing input. \<open>app\<close> alone, with no commit: its severity is \<open>none\<close> and
  its new version is its current version \<open>2.1.3\<close>, and in apply mode \<open>updateVersions\<close> still
  writes that version and counts the file as modified.
\<close>

theorem updateVersions_persists_unchanged_module:
  "snd (projr (execute demoFiles [''app''] demoHistory False)) = ([''app''], [(''app'', ''2.1.3'')])
   \<and> map changeType (heap (fst (projr (execute demoFiles [''app''] demoHistory False)))) = [NONE]
   \<and> map currentVersion (heap (fst (projr (execute demoFiles [''app''] demoHistory False))))
       = [''2.1.3'']
   \<and> map newVersion (heap (fst (projr (execute demoFiles [''app''] demoHistory False))))
       = [Some ''2.1.3'']"
  by code_simp

lemma cyclicBuilt_detect:
  "detectCyclicDependencies cyclicBuilt = Inl (CyclicDependency [''a'', ''b'', ''a''])"
  by code_simp

lemma selfBuilt_facts:
  "wfGraph selfBuilt"
  "detectCyclicDependencies selfBuilt = Inl (CyclicDependency [''s'', ''s''])"
  by code_simp+

theorem detectCyclicDependencies_fails_iff_cycle_witness:
  "hasCycle cyclicBuilt \<and> \<not> hasCycle demoAnalysed
   \<and> (\<exists>c. CyclicDependency [''a'', ''b'', ''a''] = CyclicDependency (namesOf (heap cyclicBuilt) c)
          \<and> isWalk (heap cyclicBuilt) c \<and> 2 \<le> length (namesOf (heap cyclicBuilt) c)
          \<and> hd (namesOf (heap cyclicBuilt) c) = last (namesOf (heap cyclicBuilt) c))
   \<and> (\<exists>a\<in>set (graphValues selfBuilt). reaches (heap selfBuilt) a a)"
proof -
  note A = detectCyclicDependencies_fails_iff_cycle [of cyclicBuilt]
  note B = detectCyclicDependencies_fails_iff_cycle [of demoAnalysed]
  note C = detectCyclicDependencies_fails_iff_cycle [of selfBuilt]
  have "isl (detectCyclicDependencies cyclicBuilt)"
    by (simp add: cyclicBuilt_detect)
  then have 1: "hasCycle cyclicBuilt"
    using A [THEN conjunct1] by (rule iffD1 [rotated])
  have 2: "\<not> hasCycle demoAnalysed"
    using B [THEN conjunct1] demoAnalysed_facts(4) by simp
  have 3: "\<exists>c. CyclicDependency [''a'', ''b'', ''a''] = CyclicDependency (namesOf (heap cyclicBuilt) c)
          \<and> isWalk (heap cyclicBuilt) c \<and> 2 \<le> length (namesOf (heap cyclicBuilt) c)
          \<and> hd (namesOf (heap cyclicBuilt) c) = last (namesOf (heap cyclicBuilt) c)"
    by (rule A [THEN conjunct2, THEN conjunct1, THEN spec, THEN mp, OF cyclicBuilt_detect])
  have "isl (detectCyclicDependencies selfBuilt)"
    by (simp add: selfBuilt_facts(2))
  then have "hasCycle selfBuilt"
    using C [THEN conjunct1] by (rule iffD1 [rotated])
  then have 4: "\<exists>a\<in>set (graphValues selfBuilt). reaches (heap selfBuilt) a a"
    using C [THEN conjunct2, THEN conjunct2, THEN mp, OF selfBuilt_facts(1)] by (rule iffD1 [rotated])
  show ?thesis
    by (intro conjI) (fact 1, fact 2, fact 3, fact 4)
qed

lemma reorderedBuilt_facts:
  "wfGraph reorderedBuilt" "\<not> isl (detectCyclicDependencies reorderedBuilt)"
  "graphValues reorderedBuilt = [2, 1]"
  "moduleOrder (topologicalSort reorderedBuilt) = [1, 2]"
  "dependencies (heap reorderedBuilt ! 2) = [1]"
  by code_simp+

theorem topologicalSort_dependencies_first_witness:
  "distinct (moduleOrder (topologicalSort reorderedBuilt))
   \<and> set (moduleOrder (topologicalSort reorderedBuilt)) = set (graphValues reorderedBuilt)
   \<and> (\<exists>j<1. moduleOrder (topologicalSort reorderedBuilt) ! j = 1)"
proof -
  have acyclic: "\<not> hasCycle reorderedBuilt"
    using reorderedBuilt_facts(2) by (simp add: detect_iff_hasCycle)
  note T = topologicalSort_dependencies_first [OF reorderedBuilt_facts(1) acyclic]
  have 1: "distinct (moduleOrder (topologicalSort reorderedBuilt))"
    using T by (elim conjE)
  have 2: "set (moduleOrder (topologicalSort reorderedBuilt)) = set (graphValues reorderedBuilt)"
    using T by (elim conjE)
  have all: "\<forall>i<length (moduleOrder (topologicalSort reorderedBuilt)).
            \<forall>d\<in>set (dependencies (heap reorderedBuilt ! (moduleOrder (topologicalSort reorderedBuilt) ! i))).
              \<exists>j<i. moduleOrder (topologicalSort reorderedBuilt) ! j = d"
    using T by (elim conjE)
  have i: "1 < length (moduleOrder (topologicalSort reorderedBuilt))"
    by (simp add: reorderedBuilt_facts(4))
  have d: "1 \<in> set (dependencies (heap reorderedBuilt ! (moduleOrder (topologicalSort reorderedBuilt) ! 1)))"
    by (simp add: reorderedBuilt_facts(4,5))
  have 3: "\<exists>j<1. moduleOrder (topologicalSort reorderedBuilt) ! j = 1"
    using all [rule_format, OF i d] .
  show ?thesis
    by (intro conjI) (fact 1, fact 2, fact 3)
qed

lemma bare_facts:
  "versionMatch ''plugins { java }'' = None"
  "execute bareFiles [''tool''] bareHistory False
   = Inr (fst (projr (execute bareFiles [''tool''] bareHistory False)),
          snd (projr (execute bareFiles [''tool''] bareHistory False)))"
  "length (heap (fst (projr (execute bareFiles [''tool''] bareHistory False)))) = 1"
  "name (heap (fst (projr (execute bareFiles [''tool''] bareHistory False))) ! 0) = ''tool''"
  "currentVersion (heap (analyzeChanges bareHistory
       (buildDependencyGraph bareFiles [''tool''] (newManager False))) ! 0) = ''0.1.0''"
  "changeType (heap (analyzeChanges bareHistory
       (buildDependencyGraph bareFiles [''tool''] (newManager False))) ! 0) = PATCH"
  "length (heap (analyzeChanges bareHistory
       (buildDependencyGraph bareFiles [''tool''] (newManager False)))) = 1"
  by code_simp+

theorem extractVersion_defaults_to_0_1_0_witness:
  "extractVersion ''plugins { java }'' = ''0.1.0''
   \<and> currentVersion (heap (addModule bareFiles (newManager False) ''tool'')
        ! length (heap (newManager False))) = ''0.1.0''
   \<and> currentVersion (heap (fst (projr (execute bareFiles [''tool''] bareHistory False))) ! 0)
       = ''0.1.0''
   \<and> (\<exists>h'. calculateNode (heap (analyzeChanges bareHistory
                (buildDependencyGraph bareFiles [''tool''] (newManager False)))) 0 = Inr h'
          \<and> newVersion (h' ! 0) = Some ''0.1.1'')"
proof -
  let ?c = "''plugins { java }''"
  let ?m2 = "fst (projr (execute bareFiles [''tool''] bareHistory False))"
  let ?w = "snd (projr (execute bareFiles [''tool''] bareHistory False))"
  let ?h = "heap (analyzeChanges bareHistory (buildDependencyGraph bareFiles [''tool''] (newManager False)))"
  note T = extractVersion_defaults_to_0_1_0 [where c="?c" and files=bareFiles and n="''tool''"
      and m="newManager False" and ns="[''tool'']" and history=bareHistory and dry=False
      and ?m2.0="?m2" and w="?w" and i=0 and a=0 and h="?h"]
  have nv: "\<not> hasVersionDeclaration ?c"
    by (simp only: hasVersionDeclaration_iff bare_facts(1) not_not)
  have f: "bareFiles ''tool'' = Some ?c"
    by (simp add: bareFiles_def)
  have 1: "extractVersion ?c = ''0.1.0''"
    by (rule T [THEN conjunct1, THEN mp, OF nv])
  have 2: "currentVersion (heap (addModule bareFiles (newManager False) ''tool'')
        ! length (heap (newManager False))) = ''0.1.0''"
    by (rule T [THEN conjunct2, THEN conjunct1, THEN mp, OF conjI, OF f nv])
  have h3: "execute bareFiles [''tool''] bareHistory False = Inr (?m2, ?w) \<and> 0 < length (heap ?m2)
        \<and> bareFiles (name (heap ?m2 ! 0)) = Some ?c \<and> \<not> hasVersionDeclaration ?c"
    using bare_facts(2) nv f by (simp only: bare_facts(3,4) zero_less_one simp_thms)
  have 3: "currentVersion (heap ?m2 ! 0) = ''0.1.0''"
    by (rule T [THEN conjunct2, THEN conjunct2, THEN conjunct1, THEN mp, OF h3])
  have h4: "0 < length ?h \<and> currentVersion (?h ! 0) = ''0.1.0''"
    by (simp only: bare_facts(5,7) zero_less_one simp_thms)
  have "\<exists>h'. calculateNode ?h 0 = Inr h'
           \<and> newVersion (h' ! 0) =
               Some (case changeType (?h ! 0) of
                       MAJOR \<Rightarrow> ''1.0.0'' | MINOR \<Rightarrow> ''0.2.0'' | PATCH \<Rightarrow> ''0.1.1''
                     | NONE \<Rightarrow> if list_ex (\<lambda>dep. changeType (?h ! dep) = MAJOR) (dependencies (?h ! 0))
                               then ''0.2.0'' else ''0.1.0'')"
    by (rule T [THEN conjunct2, THEN conjunct2, THEN conjunct2, THEN mp, OF h4])
  then have 4: "\<exists>h'. calculateNode ?h 0 = Inr h' \<and> newVersion (h' ! 0) = Some ''0.1.1''"
    by (simp only: bare_facts(6) changeType.case)
  show ?thesis
    by (intro conjI) (fact 1, fact 2, fact 3, fact 4)
qed

end
